theory Spec2Isabelle
  imports Main "HOL-Library.Sublist"
begin

section \<open>Token model\<close>

text \<open>
  The token kinds and the token structure of \<^verbatim>\<open>ProjectCC-Attempt2.cpp\<close>.  The C++
  field \<^verbatim>\<open>int line\<close> is a 32-bit signed integer.  Its values are modelled by HOL integers;
  the one arithmetic operation on it, the increment \<^verbatim>\<open>++line\<close> of the tokenizer, wraps
  around in two's complement (\<open>int32_wrap\<close> below).  C++ leaves the overflowing increment
  undefined; wrapping is what the usual targets do, and no property below relies on the
  value after an overflow except to show that it is not the line number.
\<close>

datatype TokenType = KEYWORD | IDENTIFIER | LITERAL | OPERATOR | PUNCTUATION | UNKNOWN

record Token =
  type :: TokenType
  "value" :: string
  line :: int

section \<open>The token pattern\<close>

text \<open>
  \<^verbatim>\<open>Lexer::tokenize\<close> builds one regular expression, an alternation of eight capture groups,
  and walks over the source with \<^verbatim>\<open>sregex_iterator\<close>.  The pattern is in the default
  (ECMAScript) grammar, where an alternation takes the first alternative that matches at the
  current position, a starred atom is greedy, \<^verbatim>\<open>*?\<close> is lazy, and \<^verbatim>\<open>.\<close> matches every
  character except the line terminators (line feed and carriage return, for \<^verbatim>\<open>char\<close>).
  Each group is modelled by a function that returns the text the group matches at the start
  of its argument, if any.
\<close>

definition LF :: char where
  "LF = CHR 0x0A"

definition CR :: char where
  "CR = CHR 0x0D"

definition TAB :: char where
  "TAB = CHR 0x09"

definition DQUOTE :: char where
  "DQUOTE = CHR 0x22"

text \<open>Group 1: \<^verbatim>\<open>(std|ifstream|ofstream|fstream|string|while|if|else|return|int)\<close>.\<close>

definition keyword_alternatives :: "string list" where
  "keyword_alternatives = [''std'', ''ifstream'', ''ofstream'', ''fstream'', ''string'', ''while'',
     ''if'', ''else'', ''return'', ''int'']"

text \<open>
  Group 4, the operators.  In the C++ literal the alternative written \<^verbatim>\<open>\\|/\<close> is the
  regular expression \<^verbatim>\<open>\|/\<close>: an escaped bar followed by a slash, the two-character text
  \<^verbatim>\<open>|/\<close>.
\<close>

definition operator_alternatives :: "string list" where
  "operator_alternatives = [''::'', ''.'', ''<<'', ''>>'', ''&&'', ''++'', ''--'', ''<='', ''>='', ''=='',
     ''!='', ''+='', ''-='', ''/='', ''+'', ''-'', ''|/'', ''<'', ''>'']"

text \<open>Group 5: \<^verbatim>\<open>([;(){}<>\[\],])\<close>.\<close>

definition punctuation :: "char list" where
  "punctuation = '';(){}<>[],''"

definition first_alternative :: "string list \<Rightarrow> string \<Rightarrow> string option" where
  "first_alternative alts s = find (\<lambda>k. prefix k s) alts"

definition letter :: "char \<Rightarrow> bool" where
  "letter c = (c \<in> set ''abcdefghijklmnopqrstuvwxyzABCDEFGHIJKLMNOPQRSTUVWXYZ'')"

definition digit :: "char \<Rightarrow> bool" where
  "digit c = (c \<in> set ''0123456789'')"

text \<open>The atom \<^verbatim>\<open>.\<close>: any character but a line terminator.\<close>

definition any_char :: "char \<Rightarrow> bool" where
  "any_char c = (c \<noteq> LF \<and> c \<noteq> CR)"

definition match_keyword :: "string \<Rightarrow> string option" where
  "match_keyword s = first_alternative keyword_alternatives s"

text \<open>Group 2: \<^verbatim>\<open>([a-zA-Z_][a-zA-Z0-9_]*)\<close>.\<close>

definition match_identifier :: "string \<Rightarrow> string option" where
  "match_identifier s =
     (case s of
        [] \<Rightarrow> None
      | c # cs \<Rightarrow>
          if letter c \<or> c = CHR ''_''
          then Some (c # takeWhile (\<lambda>d. letter d \<or> digit d \<or> d = CHR ''_'') cs)
          else None)"

text \<open>
  Group 3: \<^verbatim>\<open>(".*?")\<close>.  The lazy star stops at the first closing quote; it cannot
  step over a line terminator, so a quote that is not closed on its line does not match.
\<close>

definition match_literal :: "string \<Rightarrow> string option" where
  "match_literal s =
     (case s of
        [] \<Rightarrow> None
      | c # cs \<Rightarrow>
          if c = DQUOTE
          then (let body = takeWhile (\<lambda>d. d \<noteq> DQUOTE) cs
                in if length body < length cs \<and> list_all any_char body
                   then Some (c # body @ [DQUOTE])
                   else None)
          else None)"

definition match_operator :: "string \<Rightarrow> string option" where
  "match_operator s = first_alternative operator_alternatives s"

definition match_punctuation :: "string \<Rightarrow> string option" where
  "match_punctuation s =
     (case s of [] \<Rightarrow> None | c # cs \<Rightarrow> if c \<in> set punctuation then Some [c] else None)"

text \<open>Group 6: \<^verbatim>\<open>([ \t]+)\<close>, with a real tab character in the compiled pattern.\<close>

definition match_whitespace :: "string \<Rightarrow> string option" where
  "match_whitespace s =
     (case takeWhile (\<lambda>c. c = CHR '' '' \<or> c = TAB) s of [] \<Rightarrow> None | w # ws \<Rightarrow> Some (w # ws))"

text \<open>Group 7: a single line feed.\<close>

definition match_newline :: "string \<Rightarrow> string option" where
  "match_newline s = (case s of [] \<Rightarrow> None | c # cs \<Rightarrow> if c = LF then Some [c] else None)"

text \<open>Group 8: \<^verbatim>\<open>(.)\<close>.\<close>

definition match_unknown :: "string \<Rightarrow> string option" where
  "match_unknown s = (case s of [] \<Rightarrow> None | c # cs \<Rightarrow> if any_char c then Some [c] else None)"

text \<open>
  A match result: the index of the capture group that matched (exactly one does), the matched
  text (\<^verbatim>\<open>match.str()\<close>) and its offset in the source (\<^verbatim>\<open>match.position()\<close>).
\<close>

record smatch =
  matched_group :: nat
  str :: string
  match_position :: nat

text \<open>The whole pattern tried at the start of \<open>s\<close>: the first group that matches wins.\<close>

definition tokenPatterns :: "string \<Rightarrow> (nat \<times> string) option" where
  "tokenPatterns s =
     (case match_keyword s of Some m \<Rightarrow> Some (1, m) | None \<Rightarrow>
      case match_identifier s of Some m \<Rightarrow> Some (2, m) | None \<Rightarrow>
      case match_literal s of Some m \<Rightarrow> Some (3, m) | None \<Rightarrow>
      case match_operator s of Some m \<Rightarrow> Some (4, m) | None \<Rightarrow>
      case match_punctuation s of Some m \<Rightarrow> Some (5, m) | None \<Rightarrow>
      case match_whitespace s of Some m \<Rightarrow> Some (6, m) | None \<Rightarrow>
      case match_newline s of Some m \<Rightarrow> Some (7, m) | None \<Rightarrow>
      case match_unknown s of Some m \<Rightarrow> Some (8, m) | None \<Rightarrow> None)"

lemma first_alternative_prefix:
  "first_alternative alts s = Some m \<Longrightarrow> m \<in> set alts \<and> prefix m s"
  unfolding first_alternative_def by (induction alts) (auto split: if_splits)

lemma match_keyword_prefix: "match_keyword s = Some m \<Longrightarrow> m \<in> set keyword_alternatives \<and> prefix m s"
  unfolding match_keyword_def by (rule first_alternative_prefix)

lemma match_operator_prefix: "match_operator s = Some m \<Longrightarrow> m \<in> set operator_alternatives \<and> prefix m s"
  unfolding match_operator_def by (rule first_alternative_prefix)

lemma match_identifier_prefix: "match_identifier s = Some m \<Longrightarrow> m \<noteq> [] \<and> prefix m s"
  unfolding match_identifier_def
  by (auto split: list.splits if_splits simp: takeWhile_is_prefix)

lemma takeWhile_quote_next:
  "length (takeWhile P cs) < length cs \<Longrightarrow>
     \<exists>rest. cs = takeWhile P cs @ hd (dropWhile P cs) # rest \<and> \<not> P (hd (dropWhile P cs))"
proof -
  assume less: "length (takeWhile P cs) < length cs"
  have "dropWhile P cs \<noteq> []"
  proof
    assume "dropWhile P cs = []"
    then have "takeWhile P cs = cs"
      using takeWhile_dropWhile_id [of P cs] by simp
    with less show False by simp
  qed
  then obtain d ds where d: "dropWhile P cs = d # ds"
    by (cases "dropWhile P cs") auto
  have "\<not> P d"
    using hd_dropWhile [of P cs] d by simp
  moreover have "cs = takeWhile P cs @ d # ds"
    using takeWhile_dropWhile_id [of P cs] d by simp
  ultimately show ?thesis
    using d by auto
qed

lemma match_literal_prefix: "match_literal s = Some m \<Longrightarrow> m \<noteq> [] \<and> prefix m s"
proof -
  assume a: "match_literal s = Some m"
  then obtain cs where s: "s = DQUOTE # cs"
    unfolding match_literal_def by (auto split: list.splits if_splits)
  let ?body = "takeWhile (\<lambda>d. d \<noteq> DQUOTE) cs"
  from a s have less: "length ?body < length cs" and m: "m = DQUOTE # ?body @ [DQUOTE]"
    unfolding match_literal_def by (auto simp: Let_def split: if_splits)
  from takeWhile_quote_next [OF less] obtain rest
    where "cs = ?body @ hd (dropWhile (\<lambda>d. d \<noteq> DQUOTE) cs) # rest"
      and "hd (dropWhile (\<lambda>d. d \<noteq> DQUOTE) cs) = DQUOTE"
    by auto
  then have "cs = (?body @ [DQUOTE]) @ rest"
    by simp
  then have "prefix (?body @ [DQUOTE]) cs"
    by (metis prefixI)
  with s m show ?thesis by simp
qed

lemma match_punctuation_prefix: "match_punctuation s = Some m \<Longrightarrow> m \<noteq> [] \<and> prefix m s"
  unfolding match_punctuation_def by (auto split: list.splits if_splits)

lemma match_whitespace_prefix: "match_whitespace s = Some m \<Longrightarrow> m \<noteq> [] \<and> prefix m s"
  unfolding match_whitespace_def
  by (auto split: list.splits) (metis takeWhile_is_prefix)

lemma match_newline_prefix: "match_newline s = Some m \<Longrightarrow> m \<noteq> [] \<and> prefix m s"
  unfolding match_newline_def by (auto split: list.splits if_splits)

lemma match_unknown_prefix: "match_unknown s = Some m \<Longrightarrow> m \<noteq> [] \<and> prefix m s"
  unfolding match_unknown_def by (auto split: list.splits if_splits)

lemma keywords_nonempty: "m \<in> set keyword_alternatives \<Longrightarrow> m \<noteq> []"
  unfolding keyword_alternatives_def by auto

lemma operators_nonempty: "m \<in> set operator_alternatives \<Longrightarrow> m \<noteq> []"
  unfolding operator_alternatives_def by auto

lemma tokenPatterns_prefix:
  assumes "tokenPatterns s = Some (g, m)"
  shows "m \<noteq> [] \<and> prefix m s"
  using assms match_keyword_prefix [of s m] match_operator_prefix [of s m]
    match_identifier_prefix [of s m] match_literal_prefix [of s m]
    match_punctuation_prefix [of s m] match_whitespace_prefix [of s m]
    match_newline_prefix [of s m] match_unknown_prefix [of s m]
    keywords_nonempty [of m] operators_nonempty [of m]
  unfolding tokenPatterns_def
  by (auto split: option.splits)

text \<open>
  \<^verbatim>\<open>sregex_iterator\<close>: the successive matches of the pattern, each search starting where
  the previous match ended.  A search that finds no match at its starting position tries
  the next position, so a character that no group matches is passed over.
\<close>

function sregex_iterator :: "nat \<Rightarrow> string \<Rightarrow> smatch list" where
  "sregex_iterator pos [] = []"
| "sregex_iterator pos (c # cs) =
     (case tokenPatterns (c # cs) of
        None \<Rightarrow> sregex_iterator (Suc pos) cs
      | Some (g, m) \<Rightarrow>
          \<lparr>matched_group = g, str = m, match_position = pos\<rparr>
            # sregex_iterator (pos + length m) (drop (length m) (c # cs)))"
  by pat_completeness auto
termination
proof (relation "measure (\<lambda>(pos, s). length s)")
  show "wf (measure (\<lambda>(pos, s). length s))" by simp
next
  fix pos :: nat and c :: char and cs :: string
  show "((Suc pos, cs), (pos, c # cs)) \<in> measure (\<lambda>(pos, s). length s)" by simp
next
  fix pos :: nat and c :: char and cs :: string and x2 :: "nat \<times> string" and g :: nat and m :: string
  assume "tokenPatterns (c # cs) = Some x2" and "(g, m) = x2"
  then have "m \<noteq> []"
    using tokenPatterns_prefix [of "c # cs" g m] by simp
  then show "((pos + length m, drop (length m) (c # cs)), (pos, c # cs))
      \<in> measure (\<lambda>(pos, s). length s)"
    by (cases m) auto
qed

section \<open>The tokenizer\<close>

text \<open>
  The loop of \<^verbatim>\<open>Lexer::tokenize\<close> over the matches, with the token vector and the line
  counter as loop state.  The lexer's private \<^verbatim>\<open>lineStack\<close> is only ever pushed to and is
  never read, so it is left out.
\<close>

text \<open>The value of a 32-bit signed integer after an operation with mathematical result \<open>x\<close>.\<close>

definition int32_wrap :: "int \<Rightarrow> int" where
  "int32_wrap x = (x + 2147483648) mod 4294967296 - 2147483648"

fun tokenize_loop :: "smatch list \<Rightarrow> Token list \<Rightarrow> int \<Rightarrow> Token list" where
  "tokenize_loop [] tokens ln = tokens"
| "tokenize_loop (m # ms) tokens ln =
     (if matched_group m = 1 then
        tokenize_loop ms (tokens @ [\<lparr>type = KEYWORD, value = str m, line = ln\<rparr>]) ln
      else if matched_group m = 2 then
        tokenize_loop ms (tokens @ [\<lparr>type = IDENTIFIER, value = str m, line = ln\<rparr>]) ln
      else if matched_group m = 3 then
        tokenize_loop ms (tokens @ [\<lparr>type = LITERAL, value = str m, line = ln\<rparr>]) ln
      else if matched_group m = 4 then
        tokenize_loop ms (tokens @ [\<lparr>type = OPERATOR, value = str m, line = ln\<rparr>]) ln
      else if matched_group m = 5 then
        tokenize_loop ms (tokens @ [\<lparr>type = PUNCTUATION, value = str m, line = ln\<rparr>]) ln
      else if matched_group m = 6 then
        tokenize_loop ms tokens ln
      else if matched_group m = 7 then
        tokenize_loop ms tokens (int32_wrap (ln + 1))
      else
        tokenize_loop ms (tokens @ [\<lparr>type = UNKNOWN, value = str m, line = ln\<rparr>]) ln)"

definition tokenize :: "string \<Rightarrow> Token list" where
  "tokenize source = tokenize_loop (sregex_iterator 0 source) [] 1"

text \<open>
  Vocabulary for the properties of the tokenizer: a match emits a token unless it is
  whitespace (group 6) or a newline (group 7); \<open>group_type\<close> is the kind that the branch of
  the loop for a group gives its token; \<open>newlines_before p source\<close> counts the line feeds
  among the first \<open>p\<close> characters of the source; \<open>token_of source m\<close> is the token for the
  match \<open>m\<close> with the line number computed from the text before the match.
\<close>

definition emits :: "smatch \<Rightarrow> bool" where
  "emits m = (matched_group m \<noteq> 6 \<and> matched_group m \<noteq> 7)"

definition newlines_before :: "nat \<Rightarrow> string \<Rightarrow> int" where
  "newlines_before p source = int (count_list (take p source) LF)"

definition group_type :: "nat \<Rightarrow> TokenType" where
  "group_type g =
     (if g = 1 then KEYWORD else if g = 2 then IDENTIFIER else if g = 3 then LITERAL
      else if g = 4 then OPERATOR else if g = 5 then PUNCTUATION else UNKNOWN)"

definition token_of :: "string \<Rightarrow> smatch \<Rightarrow> Token" where
  "token_of source m =
     \<lparr>type = group_type (matched_group m), value = str m,
      line = 1 + newlines_before (match_position m) source\<rparr>"

section \<open>Syntax trees\<close>

text \<open>
  The node classes derived from \<^verbatim>\<open>ASTNode\<close>.  A \<^verbatim>\<open>unique_ptr<ASTNode>\<close> is an optional
  node: \<open>None\<close> is the null pointer.
\<close>

datatype ASTNode =
    NumberNode string
  | IdentifierNode string
  | BinaryOperationNode string "ASTNode option" "ASTNode option"
  | AssignmentNode "ASTNode option" "ASTNode option"
  | DeclarationNode string "ASTNode list"
  | UnaryOperationNode string "ASTNode option"
  | ForLoopNode "ASTNode option" "ASTNode option" "ASTNode option" "ASTNode option"
  | WhileLoopNode "ASTNode option" "ASTNode option"

section \<open>Parser state and outcomes\<close>

text \<open>
  The mutable fields of \<^verbatim>\<open>Parser\<close>.  The token vector is a constant reference and is passed
  to every function as the parameter \<open>ts\<close>.
\<close>

record Parser =
  position :: nat
  bracketStack :: "char list"
  lineStack :: "int list"

text \<open>
  How a parser function can end other than by returning:
  \<^item> \<open>runtime_error msg n\<close>: the exception \<^verbatim>\<open>runtime_error(msg + to_string(n))\<close>;
  \<^item> \<open>OutOfRange i\<close>: the read \<^verbatim>\<open>tokens[i]\<close> with \<open>i\<close> not below the size of the vector,
    which C++ leaves undefined;
  \<^item> \<open>NegativeIndex\<close>: the read \<^verbatim>\<open>tokens[position - 1]\<close> at position 0;
  \<^item> \<open>EmptyStack\<close>: \<^verbatim>\<open>top()\<close> or \<^verbatim>\<open>pop()\<close> on an empty stack;
  \<^item> \<open>OutOfFuel\<close>: the recursion bound of the model was reached.
  An outcome carries the parser's fields at the moment the function ends, on both sides.
\<close>

datatype error =
    runtime_error string int
  | OutOfRange nat
  | NegativeIndex
  | EmptyStack
  | OutOfFuel

type_synonym 'a result = "(error \<times> Parser) + ('a \<times> Parser)"

definition returnP :: "'a \<Rightarrow> Parser \<Rightarrow> 'a result" where
  "returnP x s = Inr (x, s)"

definition throwP :: "error \<Rightarrow> Parser \<Rightarrow> 'a result" where
  "throwP e s = Inl (e, s)"

definition thenP :: "'a result \<Rightarrow> ('a \<Rightarrow> Parser \<Rightarrow> 'b result) \<Rightarrow> 'b result" where
  "thenP r f = (case r of Inl e \<Rightarrow> Inl e | Inr (x, s) \<Rightarrow> f x s)"

lemma thenP_cong [fundef_cong]:
  "r = r' \<Longrightarrow> (\<And>x s. r' = Inr (x, s) \<Longrightarrow> f x s = f' x s) \<Longrightarrow> thenP r f = thenP r' f'"
  unfolding thenP_def by (auto split: sum.splits)

lemma thenP_Inl [simp]: "thenP (Inl e) f = Inl e"
  unfolding thenP_def by simp

lemma thenP_Inr [simp]: "thenP (Inr (x, s)) f = f x s"
  unfolding thenP_def by simp

section \<open>Token access\<close>

definition isAtEnd :: "Token list \<Rightarrow> Parser \<Rightarrow> bool" where
  "isAtEnd ts s = (position s \<ge> length ts)"

definition peek :: "Token list \<Rightarrow> Parser \<Rightarrow> Token result" where
  "peek ts s =
     (if position s < length ts then returnP (ts ! position s) s
      else throwP (OutOfRange (position s)) s)"

definition previous :: "Token list \<Rightarrow> Parser \<Rightarrow> Token result" where
  "previous ts s =
     (if position s = 0 then throwP NegativeIndex s
      else if position s - 1 < length ts then returnP (ts ! (position s - 1)) s
      else throwP (OutOfRange (position s - 1)) s)"

definition advance :: "Token list \<Rightarrow> Parser \<Rightarrow> Token result" where
  "advance ts s =
     previous ts (if \<not> isAtEnd ts s then s\<lparr>position := position s + 1\<rparr> else s)"

text \<open>\<^verbatim>\<open>match(type, value)\<close>; the default argument \<^verbatim>\<open>""\<close> accepts every text.\<close>

definition match :: "Token list \<Rightarrow> TokenType \<Rightarrow> string \<Rightarrow> Parser \<Rightarrow> bool result" where
  "match ts ty val s =
     (if isAtEnd ts s then returnP False s
      else thenP (peek ts s) (\<lambda>token s.
        if type token \<noteq> ty then returnP False s
        else if val \<noteq> [] \<and> value token \<noteq> val then returnP False s
        else thenP (advance ts s) (\<lambda>_ s. returnP True s)))"

text \<open>
  The idiom \<^verbatim>\<open>throw runtime_error(msg + to_string(peek().line))\<close>: the token under the cursor
  is read to build the message.
\<close>

definition throw_at_line :: "Token list \<Rightarrow> string \<Rightarrow> Parser \<Rightarrow> 'a result" where
  "throw_at_line ts msg s =
     thenP (peek ts s) (\<lambda>token s. throwP (runtime_error msg (line token)) s)"

text \<open>The idiom \<^verbatim>\<open>if (!match(type, value)) throw runtime_error(msg + ...)\<close>.\<close>

definition expect :: "Token list \<Rightarrow> TokenType \<Rightarrow> string \<Rightarrow> string \<Rightarrow> Parser \<Rightarrow> unit result" where
  "expect ts ty val msg s =
     thenP (match ts ty val s) (\<lambda>b s. if \<not> b then throw_at_line ts msg s else returnP () s)"

section \<open>The bracket tracker\<close>

definition push_bracket :: "char \<Rightarrow> Parser \<Rightarrow> unit result" where
  "push_bracket c s = returnP () (s\<lparr>bracketStack := c # bracketStack s\<rparr>)"

definition push_line :: "int \<Rightarrow> Parser \<Rightarrow> unit result" where
  "push_line n s = returnP () (s\<lparr>lineStack := n # lineStack s\<rparr>)"

definition pop_bracket :: "Parser \<Rightarrow> unit result" where
  "pop_bracket s =
     (case bracketStack s of
        [] \<Rightarrow> throwP EmptyStack s
      | c # cs \<Rightarrow> returnP () (s\<lparr>bracketStack := cs\<rparr>))"

definition pop_line :: "Parser \<Rightarrow> unit result" where
  "pop_line s =
     (case lineStack s of
        [] \<Rightarrow> throwP EmptyStack s
      | n # ns \<Rightarrow> returnP () (s\<lparr>lineStack := ns\<rparr>))"

text \<open>
  The two statements \<^verbatim>\<open>bracketStack.push(c); lineStack.push(previous().line);\<close> that follow
  every consumed opening bracket, and the two statements
  \<^verbatim>\<open>bracketStack.pop(); lineStack.pop();\<close> that follow every consumed closing bracket.
\<close>

definition open_bracket :: "Token list \<Rightarrow> char \<Rightarrow> Parser \<Rightarrow> unit result" where
  "open_bracket ts c s =
     thenP (push_bracket c s) (\<lambda>_ s.
     thenP (previous ts s) (\<lambda>token s.
     push_line (line token) s))"

definition close_bracket :: "Parser \<Rightarrow> unit result" where
  "close_bracket s = thenP (pop_bracket s) (\<lambda>_ s. pop_line s)"

section \<open>Expressions and simple statements\<close>

lemma previous_state: "previous ts s = Inr (t, s') \<Longrightarrow> s' = s"
  unfolding previous_def returnP_def throwP_def by (auto split: if_splits)

lemma peek_state: "peek ts s = Inr (t, s') \<Longrightarrow> s' = s"
  unfolding peek_def returnP_def throwP_def by (auto split: if_splits)

lemma match_True:
  "match ts ty val s = Inr (True, s') \<Longrightarrow>
     position s < length ts \<and> s' = s\<lparr>position := position s + 1\<rparr>"
  unfolding match_def advance_def isAtEnd_def peek_def previous_def returnP_def throwP_def
  by (auto split: if_splits)

lemma match_False: "match ts ty val s = Inr (False, s') \<Longrightarrow> s' = s"
  unfolding match_def advance_def isAtEnd_def peek_def previous_def returnP_def throwP_def
  by (auto split: if_splits)

text \<open>\<^verbatim>\<open>Parser::parseExpression\<close>: a prefix \<^verbatim>\<open>!\<close> operator token, or else one call of \<^verbatim>\<open>advance\<close>.\<close>

function parseExpression :: "Token list \<Rightarrow> Parser \<Rightarrow> ASTNode option result" where
  "parseExpression ts s =
     thenP (match ts OPERATOR ''!'' s) (\<lambda>b s.
       if b then
         thenP (previous ts s) (\<lambda>op s.
         thenP (parseExpression ts s) (\<lambda>right s.
         returnP (Some (UnaryOperationNode (value op) right)) s))
       else
         thenP (advance ts s) (\<lambda>_ s.
         returnP None s))"
  by pat_completeness auto
termination
proof (relation "measure (\<lambda>(ts, s). length ts - position s)")
  show "wf (measure (\<lambda>(ts, s). length ts - position s))" by simp
next
  fix ts :: "Token list" and s s1 s2 :: Parser and b :: bool and op :: Token
  assume "match ts OPERATOR ''!'' s = Inr (b, s1)" and b and "previous ts s1 = Inr (op, s2)"
  then have "position s < length ts" and "position s2 = position s + 1"
    using match_True [of ts OPERATOR "''!''" s s1] previous_state [of ts s1 op s2] by auto
  then show "((ts, s2), (ts, s)) \<in> measure (\<lambda>(ts, s). length ts - position s)"
    by simp
qed

text \<open>
  The \<^verbatim>\<open>do ... while (match(PUNCTUATION, ","))\<close> loop of
  \<^verbatim>\<open>Parser::parseVariableDeclaration\<close>, with the vector of identifiers as loop state.
\<close>

function declaration_loop :: "Token list \<Rightarrow> ASTNode list \<Rightarrow> Parser \<Rightarrow> ASTNode list result" where
  "declaration_loop ts identifiers s =
     thenP (match ts IDENTIFIER [] s) (\<lambda>b s.
       if b then
         thenP (previous ts s) (\<lambda>token s.
         thenP (match ts PUNCTUATION '','' s) (\<lambda>again s.
           if again then declaration_loop ts (identifiers @ [IdentifierNode (value token)]) s
           else returnP (identifiers @ [IdentifierNode (value token)]) s))
       else throw_at_line ts ''Expected identifier in variable declaration at line '' s)"
  by pat_completeness auto
termination
proof (relation "measure (\<lambda>(ts, ids, s). length ts - position s)")
  show "wf (measure (\<lambda>(ts, ids, s). length ts - position s))" by simp
next
  fix ts :: "Token list" and s s1 s2 s3 :: Parser and b again :: bool and token :: Token
    and identifiers :: "ASTNode list"
  assume "match ts IDENTIFIER [] s = Inr (b, s1)" and b and "previous ts s1 = Inr (token, s2)"
    and "match ts PUNCTUATION '','' s2 = Inr (again, s3)" and again
  then have "position s < length ts" and "position s2 = position s + 1"
     and "position s3 = position s2 + 1" and "position s2 < length ts"
    using match_True [of ts IDENTIFIER "[]" s s1] previous_state [of ts s1 token s2]
      match_True [of ts PUNCTUATION "'',''" s2 s3] by auto
  then show "((ts, identifiers @ [IdentifierNode (value token)], s3), (ts, identifiers, s))
      \<in> measure (\<lambda>(ts, ids, s). length ts - position s)"
    by simp
qed

definition parseVariableDeclaration :: "Token list \<Rightarrow> Parser \<Rightarrow> ASTNode option result" where
  "parseVariableDeclaration ts s =
     thenP (previous ts s) (\<lambda>token s.
     thenP (declaration_loop ts [] s) (\<lambda>identifiers s.
     thenP (expect ts PUNCTUATION '';''
              ''Expected ';' at the end of variable declaration at line '' s) (\<lambda>_ s.
     returnP (Some (DeclarationNode (value token) identifiers)) s)))"

definition parseFileDeclaration :: "Token list \<Rightarrow> Parser \<Rightarrow> ASTNode option result" where
  "parseFileDeclaration ts s =
     thenP (expect ts IDENTIFIER []
              ''Expected identifier after file declaration keyword at line '' s) (\<lambda>_ s.
     thenP (previous ts s) (\<lambda>token s.
     thenP (expect ts PUNCTUATION ''(''
              ''Expected '(' after file declaration identifier at line '' s) (\<lambda>_ s.
     thenP (open_bracket ts (CHR ''('') s) (\<lambda>_ s.
     thenP (expect ts LITERAL []
              ''Expected filename literal in file declaration at line '' s) (\<lambda>_ s.
     thenP (expect ts PUNCTUATION '')''
              ''Expected ')' after filename literal in file declaration at line '' s) (\<lambda>_ s.
     thenP (close_bracket s) (\<lambda>_ s.
     thenP (expect ts PUNCTUATION '';''
              ''Expected ';' at the end of file declaration at line '' s) (\<lambda>_ s.
     returnP (Some (IdentifierNode (value token))) s))))))))"

definition parseFileOperation :: "Token list \<Rightarrow> Parser \<Rightarrow> ASTNode option result" where
  "parseFileOperation ts s =
     thenP (previous ts s) (\<lambda>token s.
     thenP (match ts PUNCTUATION ''.'' s) (\<lambda>b s.
       if b then
         thenP (expect ts IDENTIFIER []
                  ''Expected method name after '.' in file operation at line '' s) (\<lambda>_ s.
         thenP (expect ts PUNCTUATION ''(''
                  ''Expected '(' after method name in file operation at line '' s) (\<lambda>_ s.
         thenP (open_bracket ts (CHR ''('') s) (\<lambda>_ s.
         thenP (expect ts PUNCTUATION '')''
                  ''Expected ')' in file operation at line '' s) (\<lambda>_ s.
         thenP (close_bracket s) (\<lambda>_ s.
         thenP (expect ts PUNCTUATION '';''
                  ''Expected ';' at the end of file operation at line '' s) (\<lambda>_ s.
         returnP (Some (IdentifierNode (value token))) s))))))
       else throw_at_line ts ''Unexpected token after file identifier at line '' s))"

section \<open>Statements\<close>

text \<open>
  \<^verbatim>\<open>parseStatement\<close> and the three compound statements call each other.  The recursion is
  bounded by a fuel argument that every call of \<^verbatim>\<open>parseStatement\<close> and every round of a
  body loop \<^verbatim>\<open>while (!match(PUNCTUATION, "}")) parseStatement();\<close> decreases; with no fuel
  left the outcome is \<open>OutOfFuel\<close>.  Lemma \<open>parse_fuel_suffices\<close> shows that the bound
  used by \<open>parse\<close> is never reached, and lemma \<open>parse_fuel_independent\<close> that a larger bound
  gives the same outcome.
\<close>

declare thenP_cong [fundef_cong del]

fun parseStatement :: "nat \<Rightarrow> Token list \<Rightarrow> Parser \<Rightarrow> unit result"
  and statement_loop :: "nat \<Rightarrow> Token list \<Rightarrow> Parser \<Rightarrow> unit result"
  and parseIfStatement :: "nat \<Rightarrow> Token list \<Rightarrow> Parser \<Rightarrow> ASTNode option result"
  and parseWhileStatement :: "nat \<Rightarrow> Token list \<Rightarrow> Parser \<Rightarrow> ASTNode option result"
  and parseForStatement :: "nat \<Rightarrow> Token list \<Rightarrow> Parser \<Rightarrow> ASTNode option result"
where
  "parseStatement 0 ts s = throwP OutOfFuel s"
| "parseStatement (Suc n) ts s =
     thenP (match ts KEYWORD ''int'' s) (\<lambda>b s.
       if b then thenP (parseVariableDeclaration ts s) (\<lambda>_ s. returnP () s)
       else
     thenP (match ts KEYWORD ''ifstream'' s) (\<lambda>b s.
     thenP (if b then returnP True s else match ts KEYWORD ''ofstream'' s) (\<lambda>b s.
     thenP (if b then returnP True s else match ts KEYWORD ''fstream'' s) (\<lambda>b s.
       if b then thenP (parseFileDeclaration ts s) (\<lambda>_ s. returnP () s)
       else
     thenP (match ts IDENTIFIER [] s) (\<lambda>b s.
       if b then thenP (parseFileOperation ts s) (\<lambda>_ s. returnP () s)
       else
     thenP (match ts KEYWORD ''if'' s) (\<lambda>b s.
       if b then thenP (parseIfStatement n ts s) (\<lambda>_ s. returnP () s)
       else
     thenP (match ts KEYWORD ''while'' s) (\<lambda>b s.
       if b then thenP (parseWhileStatement n ts s) (\<lambda>_ s. returnP () s)
       else
     thenP (match ts KEYWORD ''for'' s) (\<lambda>b s.
       if b then thenP (parseForStatement n ts s) (\<lambda>_ s. returnP () s)
       else
     thenP (peek ts s) (\<lambda>token s.
     throw_at_line ts (''Unexpected token: '' @ value token @ '' at line '') s)))))))))"
| "statement_loop 0 ts s = throwP OutOfFuel s"
| "statement_loop (Suc n) ts s =
     thenP (match ts PUNCTUATION ''}'' s) (\<lambda>b s.
       if \<not> b then
         thenP (parseStatement n ts s) (\<lambda>_ s.
         statement_loop n ts s)
       else returnP () s)"
| "parseIfStatement n ts s =
     thenP (expect ts PUNCTUATION ''('' ''Expected '(' after 'if' at line '' s) (\<lambda>_ s.
     thenP (open_bracket ts (CHR ''('') s) (\<lambda>_ s.
     thenP (parseExpression ts s) (\<lambda>_ s.
     thenP (expect ts PUNCTUATION '')''
              ''Expected ')' after condition in 'if' statement at line '' s) (\<lambda>_ s.
     thenP (close_bracket s) (\<lambda>_ s.
     thenP (expect ts PUNCTUATION ''{'' ''Expected '{' after 'if' condition at line '' s) (\<lambda>_ s.
     thenP (open_bracket ts (CHR ''{'') s) (\<lambda>_ s.
     thenP (statement_loop n ts s) (\<lambda>_ s.
     thenP (close_bracket s) (\<lambda>_ s.
     returnP None s)))))))))"
| "parseWhileStatement n ts s =
     thenP (expect ts PUNCTUATION ''('' ''Expected '(' after 'while' at line '' s) (\<lambda>_ s.
     thenP (open_bracket ts (CHR ''('') s) (\<lambda>_ s.
     thenP (parseExpression ts s) (\<lambda>_ s.
     thenP (expect ts PUNCTUATION '')''
              ''Expected ')' after condition in 'while' statement at line '' s) (\<lambda>_ s.
     thenP (close_bracket s) (\<lambda>_ s.
     thenP (expect ts PUNCTUATION ''{''
              ''Expected '{' after 'while' condition at line '' s) (\<lambda>_ s.
     thenP (open_bracket ts (CHR ''{'') s) (\<lambda>_ s.
     thenP (statement_loop n ts s) (\<lambda>_ s.
     thenP (close_bracket s) (\<lambda>_ s.
     returnP None s)))))))))"
| "parseForStatement n ts s =
     thenP (expect ts PUNCTUATION ''('' ''Expected '(' after 'for' at line '' s) (\<lambda>_ s.
     thenP (open_bracket ts (CHR ''('') s) (\<lambda>_ s.
     thenP (parseExpression ts s) (\<lambda>_ s.
     thenP (expect ts PUNCTUATION '';''
              ''Expected ';' after initialization in 'for' statement at line '' s) (\<lambda>_ s.
     thenP (parseExpression ts s) (\<lambda>_ s.
     thenP (expect ts PUNCTUATION '';''
              ''Expected ';' after condition in 'for' statement at line '' s) (\<lambda>_ s.
     thenP (parseExpression ts s) (\<lambda>_ s.
     thenP (expect ts PUNCTUATION '')''
              ''Expected ')' after increment in 'for' statement at line '' s) (\<lambda>_ s.
     thenP (close_bracket s) (\<lambda>_ s.
     thenP (expect ts PUNCTUATION ''{'' ''Expected '{' after 'for' header at line '' s) (\<lambda>_ s.
     thenP (open_bracket ts (CHR ''{'') s) (\<lambda>_ s.
     thenP (statement_loop n ts s) (\<lambda>_ s.
     thenP (close_bracket s) (\<lambda>_ s.
     returnP None s)))))))))))))"

section \<open>The program\<close>

text \<open>The loop \<^verbatim>\<open>while (!isAtEnd()) parseStatement();\<close> of \<^verbatim>\<open>Parser::parseProgram\<close>.\<close>

fun program_loop :: "nat \<Rightarrow> Token list \<Rightarrow> Parser \<Rightarrow> unit result" where
  "program_loop 0 ts s = throwP OutOfFuel s"
| "program_loop (Suc n) ts s =
     (if \<not> isAtEnd ts s then
        thenP (parseStatement n ts s) (\<lambda>_ s.
        program_loop n ts s)
      else returnP () s)"

definition parseProgram :: "nat \<Rightarrow> Token list \<Rightarrow> Parser \<Rightarrow> ASTNode option result" where
  "parseProgram n ts s =
     thenP (program_loop n ts s) (\<lambda>_ s.
       if bracketStack s \<noteq> [] then
         (case lineStack s of
            [] \<Rightarrow> throwP EmptyStack s
          | errorLine # ls \<Rightarrow>
              throwP (runtime_error ''Mismatched brackets detected at line '' errorLine) s)
       else returnP None s)"

text \<open>The parser as constructed by \<^verbatim>\<open>Parser(tokens)\<close>: cursor at 0, both stacks empty.\<close>

definition new_Parser :: Parser where
  "new_Parser = \<lparr>position = 0, bracketStack = [], lineStack = []\<rparr>"

text \<open>
  \<^verbatim>\<open>Parser::parse\<close>: what the caller receives is the returned pointer or the way the
  call ended.
\<close>

definition parse :: "Token list \<Rightarrow> error + ASTNode option" where
  "parse ts =
     (case parseProgram (2 * length ts + 2) ts new_Parser of
        Inl (e, s) \<Rightarrow> Inl e
      | Inr (root, s) \<Rightarrow> Inr root)"

section \<open>Vocabulary for the properties of the parser\<close>

text \<open>
  \<open>balanced s\<close>: the two stacks of the bracket tracker are equally long.
  \<open>tracked ts d p s\<close>: both stacks hold \<open>d\<close> entries and the cursor is at least \<open>p\<close> and
  at most the number of tokens.  \<open>harmless ok e\<close>: the error \<open>e\<close> is neither a stack
  underflow, nor a read before the start of the vector, nor the mismatched-brackets
  exception, nor (when \<open>ok\<close> holds) a lack of fuel.  \<open>ends r ok Q\<close>: the outcome \<open>r\<close> either
  is a harmless error that leaves the stacks balanced, or returns a value and a state that
  satisfy \<open>Q\<close>.  \<open>stacks_after r d\<close>: the outcome \<open>r\<close> leaves the stacks equally long, with
  \<open>d\<close> entries each if it is a return.
\<close>

definition balanced :: "Parser \<Rightarrow> bool" where
  "balanced s = (length (bracketStack s) = length (lineStack s))"

definition tracked :: "Token list \<Rightarrow> nat \<Rightarrow> nat \<Rightarrow> Parser \<Rightarrow> bool" where
  "tracked ts d p s =
     (length (bracketStack s) = d \<and> length (lineStack s) = d
      \<and> p \<le> position s \<and> position s \<le> length ts)"

definition harmless :: "bool \<Rightarrow> error \<Rightarrow> bool" where
  "harmless ok e =
     (e \<noteq> EmptyStack \<and> e \<noteq> NegativeIndex \<and> (ok \<longrightarrow> e \<noteq> OutOfFuel)
      \<and> (\<forall>n. e \<noteq> runtime_error ''Mismatched brackets detected at line '' n))"

definition ends :: "'a result \<Rightarrow> bool \<Rightarrow> ('a \<Rightarrow> Parser \<Rightarrow> bool) \<Rightarrow> bool" where
  "ends r ok Q =
     (case r of Inl (e, s) \<Rightarrow> balanced s \<and> harmless ok e | Inr (x, s) \<Rightarrow> Q x s)"

definition stacks_after :: "'a result \<Rightarrow> nat \<Rightarrow> bool" where
  "stacks_after r d =
     (case r of
        Inl (e, s) \<Rightarrow> balanced s
      | Inr (x, s) \<Rightarrow> length (bracketStack s) = d \<and> length (lineStack s) = d)"

text \<open>
  \<open>fuel_le r r'\<close>: the outcome \<open>r\<close>, obtained with less fuel, is the outcome \<open>r'\<close>
  unless it is a lack of fuel.
\<close>

definition fuel_le :: "'a result \<Rightarrow> 'a result \<Rightarrow> bool" where
  "fuel_le r r' = (r = r' \<or> (\<exists>s. r = Inl (OutOfFuel, s)))"

section \<open>Properties of the tokenizer\<close>

lemma keyword_no_LF: "m \<in> set keyword_alternatives \<Longrightarrow> LF \<notin> set m \<and> CR \<notin> set m"
  unfolding keyword_alternatives_def LF_def CR_def by auto

lemma operator_no_LF: "m \<in> set operator_alternatives \<Longrightarrow> LF \<notin> set m \<and> CR \<notin> set m"
  unfolding operator_alternatives_def LF_def CR_def by auto

lemma letter_no_LF: "letter c \<Longrightarrow> c \<noteq> LF \<and> c \<noteq> CR"
  unfolding letter_def LF_def CR_def by auto

lemma digit_no_LF: "digit c \<Longrightarrow> c \<noteq> LF \<and> c \<noteq> CR"
  unfolding digit_def LF_def CR_def by auto

lemma match_identifier_no_LF:
  assumes "match_identifier s = Some m"
  shows "LF \<notin> set m \<and> CR \<notin> set m"
proof -
  from assms obtain c cs where m: "m = c # takeWhile (\<lambda>d. letter d \<or> digit d \<or> d = CHR ''_'') cs"
    and c: "letter c \<or> c = CHR ''_''"
    unfolding match_identifier_def by (auto split: list.splits if_splits)
  have u: "CHR ''_'' \<noteq> LF \<and> CHR ''_'' \<noteq> CR"
    unfolding LF_def CR_def by simp
  have "d \<noteq> LF \<and> d \<noteq> CR"
    if "d \<in> set (takeWhile (\<lambda>d. letter d \<or> digit d \<or> d = CHR ''_'') cs)" for d
  proof -
    from that have "letter d \<or> digit d \<or> d = CHR ''_''"
      by (auto dest: set_takeWhileD)
    then show ?thesis
      using letter_no_LF [of d] digit_no_LF [of d] u by auto
  qed
  moreover have "c \<noteq> LF \<and> c \<noteq> CR"
    using c letter_no_LF u by auto
  ultimately show ?thesis
    unfolding m by auto
qed

lemma match_literal_no_LF:
  assumes "match_literal s = Some m"
  shows "LF \<notin> set m \<and> CR \<notin> set m"
proof -
  from assms obtain cs where
    m: "m = DQUOTE # takeWhile (\<lambda>d. d \<noteq> DQUOTE) cs @ [DQUOTE]"
    and body: "list_all any_char (takeWhile (\<lambda>d. d \<noteq> DQUOTE) cs)"
    unfolding match_literal_def by (auto simp: Let_def split: list.splits if_splits)
  have q: "DQUOTE \<noteq> LF \<and> DQUOTE \<noteq> CR"
    unfolding DQUOTE_def LF_def CR_def by simp
  from body have "\<And>d. d \<in> set (takeWhile (\<lambda>d. d \<noteq> DQUOTE) cs) \<Longrightarrow> d \<noteq> LF \<and> d \<noteq> CR"
    unfolding list_all_iff any_char_def by blast
  with q show ?thesis
    unfolding m by auto
qed

lemma match_punctuation_no_LF:
  "match_punctuation s = Some m \<Longrightarrow> LF \<notin> set m \<and> CR \<notin> set m"
  unfolding match_punctuation_def punctuation_def LF_def CR_def
  by (auto split: list.splits if_splits)

lemma match_whitespace_no_LF:
  assumes "match_whitespace s = Some m"
  shows "LF \<notin> set m \<and> CR \<notin> set m"
proof -
  from assms have m: "m = takeWhile (\<lambda>c. c = CHR '' '' \<or> c = TAB) s"
    unfolding match_whitespace_def by (auto split: list.splits)
  have w: "d = CHR '' '' \<or> d = TAB"
    if "d \<in> set (takeWhile (\<lambda>c. c = CHR '' '' \<or> c = TAB) s)" for d
    using that by (auto dest: set_takeWhileD)
  have "CHR '' '' \<noteq> LF \<and> CHR '' '' \<noteq> CR \<and> TAB \<noteq> LF \<and> TAB \<noteq> CR"
    unfolding TAB_def LF_def CR_def by simp
  then show ?thesis
    unfolding m using w [of LF] w [of CR] by auto
qed

lemma match_newline_eq: "match_newline s = Some m \<Longrightarrow> m = [LF]"
  unfolding match_newline_def by (auto split: list.splits if_splits)

lemma match_unknown_no_LF: "match_unknown s = Some m \<Longrightarrow> LF \<notin> set m \<and> CR \<notin> set m"
  unfolding match_unknown_def any_char_def by (auto split: list.splits if_splits)

lemma tokenPatterns_cases:
  assumes "tokenPatterns s = Some (g, m)"
  shows "(g = 1 \<and> match_keyword s = Some m) \<or> (g = 2 \<and> match_identifier s = Some m)
       \<or> (g = 3 \<and> match_literal s = Some m) \<or> (g = 4 \<and> match_operator s = Some m)
       \<or> (g = 5 \<and> match_punctuation s = Some m) \<or> (g = 6 \<and> match_whitespace s = Some m)
       \<or> (g = 7 \<and> match_newline s = Some m) \<or> (g = 8 \<and> match_unknown s = Some m)"
  using assms unfolding tokenPatterns_def by (auto split: option.splits)

lemma match_keyword_no_LF: "match_keyword s = Some m \<Longrightarrow> LF \<notin> set m \<and> CR \<notin> set m"
  using match_keyword_prefix [of s m] keyword_no_LF [of m] by blast

lemma match_operator_no_LF: "match_operator s = Some m \<Longrightarrow> LF \<notin> set m \<and> CR \<notin> set m"
  using match_operator_prefix [of s m] operator_no_LF [of m] by blast

lemma tokenPatterns_terminators:
  assumes "tokenPatterns s = Some (g, m)"
  shows "(g = 7 \<and> m = [LF]) \<or> (g \<noteq> 7 \<and> LF \<notin> set m \<and> CR \<notin> set m)"
proof -
  from tokenPatterns_cases [OF assms] consider
      (kw) "g = 1" "match_keyword s = Some m"
    | (ident) "g = 2" "match_identifier s = Some m"
    | (lit) "g = 3" "match_literal s = Some m"
    | (oper) "g = 4" "match_operator s = Some m"
    | (punct) "g = 5" "match_punctuation s = Some m"
    | (space) "g = 6" "match_whitespace s = Some m"
    | (newline) "g = 7" "match_newline s = Some m"
    | (unknown) "g = 8" "match_unknown s = Some m"
    by blast
  then show ?thesis
  proof cases
    case kw
    then show ?thesis using match_keyword_no_LF [of s m] by simp
  next
    case ident
    then show ?thesis using match_identifier_no_LF [of s m] by simp
  next
    case lit
    then show ?thesis using match_literal_no_LF [of s m] by simp
  next
    case oper
    then show ?thesis using match_operator_no_LF [of s m] by simp
  next
    case punct
    then show ?thesis using match_punctuation_no_LF [of s m] by simp
  next
    case space
    then show ?thesis using match_whitespace_no_LF [of s m] by simp
  next
    case newline
    then show ?thesis using match_newline_eq [of s m] by simp
  next
    case unknown
    then show ?thesis using match_unknown_no_LF [of s m] by simp
  qed
qed

lemma LF_not_CR: "LF \<noteq> CR"
  unfolding LF_def CR_def by simp

lemma tokenPatterns_newlines:
  assumes "tokenPatterns s = Some (g, m)"
  shows "count_list m LF = (if g = 7 then 1 else 0)"
  using tokenPatterns_terminators [OF assms] by (auto simp: count_list_0_iff)

lemma tokenPatterns_no_CR:
  assumes "tokenPatterns s = Some (g, m)"
  shows "CR \<notin> set m"
  using tokenPatterns_terminators [OF assms] LF_not_CR by auto

lemma tokenPatterns_None: "tokenPatterns (c # cs) = None \<Longrightarrow> c = CR"
  unfolding tokenPatterns_def match_unknown_def match_newline_def any_char_def
  by (auto split: option.splits if_splits)


lemma tokenize_loop_step:
  "tokenize_loop (m # ms) tokens ln =
     tokenize_loop ms
       (if emits m
        then tokens @ [\<lparr>type = group_type (matched_group m), value = str m, line = ln\<rparr>]
        else tokens)
       (if matched_group m = 7 then int32_wrap (ln + 1) else ln)"
  by (simp add: emits_def group_type_def)

lemma int32_wrap_id: "- 2147483648 \<le> x \<Longrightarrow> x < 2147483648 \<Longrightarrow> int32_wrap x = x"
  unfolding int32_wrap_def by simp

lemma tokenPatterns_split:
  assumes "tokenPatterns (c # cs) = Some (g, m)"
  shows "c # cs = m @ drop (length m) (c # cs)"
proof -
  from tokenPatterns_prefix [OF assms] obtain zs where zs: "c # cs = m @ zs"
    unfolding prefix_def by blast
  then have "drop (length m) (c # cs) = zs"
    by simp
  with zs show ?thesis by simp
qed

text \<open>
  As long as the source has fewer than \<open>2^31 - 1\<close> line feeds the counter never overflows,
  and the tokens are the tokens of the emitting matches with their true line numbers.
\<close>

lemma tokenize_loop_lines:
  "length pre = pos \<Longrightarrow> source = pre @ rest \<Longrightarrow> count_list source LF < 2147483647 \<Longrightarrow>
     tokenize_loop (sregex_iterator pos rest) tokens (1 + int (count_list pre LF)) =
       tokens @ map (token_of source) (filter emits (sregex_iterator pos rest))"
proof (induction pos rest arbitrary: pre tokens rule: sregex_iterator.induct)
  case (1 pos)
  then show ?case by simp
next
  case (2 pos c cs)
  let ?ln = "1 + int (count_list pre LF)"
  show ?case
  proof (cases "tokenPatterns (c # cs)")
    case None
    then have "c = CR" by (rule tokenPatterns_None)
    then have c: "c \<noteq> LF" using LF_not_CR by simp
    have "tokenize_loop (sregex_iterator (Suc pos) cs) tokens
            (1 + int (count_list (pre @ [c]) LF)) =
          tokens @ map (token_of source) (filter emits (sregex_iterator (Suc pos) cs))"
      using "2.prems" by (intro "2.IH"(1) [OF None]) simp_all
    with None c show ?thesis by simp
  next
    case (Some gm)
    obtain g m where gm: "gm = (g, m)" by (cases gm)
    let ?rest = "drop (length m) (c # cs)"
    let ?M = "\<lparr>matched_group = g, str = m, match_position = pos\<rparr>"
    let ?ms = "sregex_iterator (pos + length m) ?rest"
    have tp: "tokenPatterns (c # cs) = Some (g, m)" using Some gm by simp
    have split: "c # cs = m @ ?rest" by (rule tokenPatterns_split [OF tp])
    have iter: "sregex_iterator pos (c # cs) = ?M # ?ms"
      using tp by simp
    have src: "source = (pre @ m) @ ?rest"
      using "2.prems" split by simp
    have len: "length (pre @ m) = pos + length m"
      using "2.prems" by simp
    have IH: "tokenize_loop ?ms tokens' (1 + int (count_list (pre @ m) LF)) =
          tokens' @ map (token_of source) (filter emits ?ms)"
      for tokens'
      using "2.IH"(2) [OF Some gm [symmetric] len src "2.prems"(3)] .
    have head: "token_of source ?M = \<lparr>type = group_type g, value = m, line = ?ln\<rparr>"
      using "2.prems" by (simp add: token_of_def newlines_before_def)
    show ?thesis
    proof (cases "g = 7")
      case True
      then have ne: "\<not> emits ?M" by (simp add: emits_def)
      from True tokenPatterns_newlines [OF tp]
      have cnt: "count_list (pre @ m) LF = Suc (count_list pre LF)"
        by simp
      have "count_list (pre @ m) LF \<le> count_list source LF"
        unfolding src by simp
      with cnt "2.prems"(3) have "?ln + 1 < 2147483648"
        by simp
      then have "int32_wrap (?ln + 1) = ?ln + 1"
        by (intro int32_wrap_id) simp_all
      with cnt have w: "int32_wrap (?ln + 1) = 1 + int (count_list (pre @ m) LF)"
        by simp
      have "tokenize_loop (?M # ?ms) tokens ?ln = tokenize_loop ?ms tokens (int32_wrap (?ln + 1))"
        unfolding tokenize_loop_step using True ne by simp
      also have "\<dots> = tokens @ map (token_of source) (filter emits ?ms)"
        unfolding w by (rule IH)
      also have "\<dots> = tokens @ map (token_of source) (filter emits (?M # ?ms))"
        using ne by simp
      finally show ?thesis
        unfolding iter .
    next
      case False
      from False tokenPatterns_newlines [OF tp]
      have cnt: "count_list (pre @ m) LF = count_list pre LF"
        by simp
      from False IH cnt head show ?thesis
        unfolding iter tokenize_loop_step by simp
    qed
  qed
qed

lemma tokenize_tokens:
  "count_list source LF < 2147483647 \<Longrightarrow>
     tokenize source = map (token_of source) (filter emits (sregex_iterator 0 source))"
  using tokenize_loop_lines [of "[]" 0 source source "[]"]
  unfolding tokenize_def by simp

lemma matches_in_place:
  "length pre = pos \<Longrightarrow> source = pre @ rest \<Longrightarrow>
     list_all (\<lambda>m. take (length (str m)) (drop (match_position m) source) = str m \<and> str m \<noteq> [])
       (sregex_iterator pos rest)"
proof (induction pos rest arbitrary: pre rule: sregex_iterator.induct)
  case (1 pos)
  then show ?case by simp
next
  case (2 pos c cs)
  show ?case
  proof (cases "tokenPatterns (c # cs)")
    case None
    have "list_all (\<lambda>m. take (length (str m)) (drop (match_position m) source) = str m
        \<and> str m \<noteq> []) (sregex_iterator (Suc pos) cs)"
      using "2.prems" by (intro "2.IH"(1) [OF None, of "pre @ [c]"]) simp_all
    with None show ?thesis by simp
  next
    case (Some gm)
    obtain g m where gm: "gm = (g, m)" by (cases gm)
    let ?rest = "drop (length m) (c # cs)"
    have tp: "tokenPatterns (c # cs) = Some (g, m)" using Some gm by simp
    have split: "c # cs = m @ ?rest" by (rule tokenPatterns_split [OF tp])
    have ne: "m \<noteq> []" using tokenPatterns_prefix [OF tp] by simp
    have src: "source = (pre @ m) @ ?rest"
      using "2.prems" split by simp
    have len: "length (pre @ m) = pos + length m"
      using "2.prems" by simp
    have IH: "list_all (\<lambda>m. take (length (str m)) (drop (match_position m) source) = str m
        \<and> str m \<noteq> []) (sregex_iterator (pos + length m) ?rest)"
      using "2.IH"(2) [OF Some gm [symmetric] len src] .
    have "drop pos source = m @ ?rest"
      using src len "2.prems" by simp
    then have "take (length m) (drop pos source) = m"
      by simp
    with IH ne tp show ?thesis by simp
  qed
qed

lemma positions_sorted:
  "sorted (map match_position (sregex_iterator pos rest))
   \<and> list_all (\<lambda>m. pos \<le> match_position m) (sregex_iterator pos rest)"
proof (induction pos rest rule: sregex_iterator.induct)
  case (1 pos)
  then show ?case by simp
next
  case (2 pos c cs)
  show ?case
  proof (cases "tokenPatterns (c # cs)")
    case None
    with "2.IH"(1) [OF None] show ?thesis
      by (auto simp: list_all_iff)
  next
    case (Some gm)
    obtain g m where gm: "gm = (g, m)" by (cases gm)
    have tp: "tokenPatterns (c # cs) = Some (g, m)" using Some gm by simp
    from "2.IH"(2) [OF Some gm [symmetric]] tp show ?thesis
      by (auto simp: list_all_iff)
  qed
qed

lemma newlines_before_mono:
  assumes "p \<le> q"
  shows "newlines_before p source \<le> newlines_before q source"
proof -
  from assms obtain k where q: "q = p + k"
    using le_Suc_ex by blast
  show ?thesis
    unfolding newlines_before_def q take_add by simp
qed

lemma sorted_map_mono:
  assumes "sorted (map f xs)" and "\<And>a b. a \<le> b \<Longrightarrow> g a \<le> g b"
  shows "sorted (map (\<lambda>x. g (f x)) xs)"
  using assms(1)
proof (induction xs)
  case Nil
  then show ?case by simp
next
  case (Cons x xs)
  then show ?case
    using assms(2) by auto
qed

lemma token_lines_sorted:
  "sorted (map (\<lambda>m. 1 + newlines_before (match_position m) source)
     (filter emits (sregex_iterator 0 source)))"
proof -
  have "sorted (map match_position (filter emits (sregex_iterator 0 source)))"
    using positions_sorted [of 0 source] by (simp add: sorted_filter)
  then show ?thesis
    by (rule sorted_map_mono) (simp add: newlines_before_mono)
qed

lemma tokenize_sorted:
  assumes "count_list source LF < 2147483647"
  shows "sorted (map line (tokenize source))"
proof -
  have "map line (tokenize source) =
      map (\<lambda>m. 1 + newlines_before (match_position m) source)
        (filter emits (sregex_iterator 0 source))"
    unfolding tokenize_tokens [OF assms] by (simp add: token_of_def)
  then show ?thesis
    using token_lines_sorted [of source] by simp
qed

lemma matches_cover:
  "concat (map str (sregex_iterator pos rest)) = filter (\<lambda>c. c \<noteq> CR) rest"
proof (induction pos rest rule: sregex_iterator.induct)
  case (1 pos)
  then show ?case by simp
next
  case (2 pos c cs)
  show ?case
  proof (cases "tokenPatterns (c # cs)")
    case None
    then have "c = CR" by (rule tokenPatterns_None)
    with None "2.IH"(1) [OF None] show ?thesis by simp
  next
    case (Some gm)
    obtain g m where gm: "gm = (g, m)" by (cases gm)
    let ?rest = "drop (length m) (c # cs)"
    have tp: "tokenPatterns (c # cs) = Some (g, m)" using Some gm by simp
    have split: "c # cs = m @ ?rest" by (rule tokenPatterns_split [OF tp])
    have "filter (\<lambda>c. c \<noteq> CR) m = m"
      using tokenPatterns_no_CR [OF tp] by (auto simp: filter_id_conv)
    then have "filter (\<lambda>c. c \<noteq> CR) (m @ ?rest) = m @ filter (\<lambda>c. c \<noteq> CR) ?rest"
      by simp
    then have "filter (\<lambda>c. c \<noteq> CR) (c # cs) = m @ filter (\<lambda>c. c \<noteq> CR) ?rest"
      using split by simp
    moreover have "concat (map str (sregex_iterator pos (c # cs))) =
        m @ concat (map str (sregex_iterator (pos + length m) ?rest))"
      using tp by simp
    ultimately show ?thesis
      using "2.IH"(2) [OF Some gm [symmetric]] by simp
  qed
qed

lemma unknown_fallback:
  assumes "match_keyword (c # cs) = None" and "match_identifier (c # cs) = None"
    and "match_literal (c # cs) = None" and "match_operator (c # cs) = None"
    and "match_punctuation (c # cs) = None" and "match_whitespace (c # cs) = None"
    and "match_newline (c # cs) = None" and "c \<noteq> CR"
  shows "tokenPatterns (c # cs) = Some (8, [c])"
proof -
  from assms(7) have "c \<noteq> LF"
    unfolding match_newline_def by (simp split: if_splits)
  with assms(8) have "match_unknown (c # cs) = Some [c]"
    unfolding match_unknown_def any_char_def by simp
  with assms show ?thesis
    unfolding tokenPatterns_def by simp
qed

text \<open>
  The kind and the text of the tokens do not depend on the line counter: for every source
  they are those of the emitting matches.
\<close>

lemma tokenize_loop_kinds:
  "map (\<lambda>t. (type t, value t)) (tokenize_loop ms tokens ln) =
     map (\<lambda>t. (type t, value t)) tokens
       @ map (\<lambda>m. (group_type (matched_group m), str m)) (filter emits ms)"
proof (induction ms arbitrary: tokens ln)
  case Nil
  then show ?case by simp
next
  case (Cons m ms)
  show ?case
    unfolding tokenize_loop_step Cons.IH by simp
qed

lemma tokenize_kinds_of_matches:
  "map (\<lambda>t. (type t, value t)) (tokenize source) =
     map (\<lambda>m. (group_type (matched_group m), str m)) (filter emits (sregex_iterator 0 source))"
  unfolding tokenize_def tokenize_loop_kinds by simp

lemma length_concat_nonempty:
  "list_all (\<lambda>m. P m \<and> str m \<noteq> []) ms \<Longrightarrow> length ms \<le> length (concat (map str ms))"
proof (induction ms)
  case Nil
  then show ?case by simp
next
  case (Cons m ms)
  then have ne: "str m \<noteq> []" and le: "length ms \<le> length (concat (map str ms))"
    by simp_all
  from ne obtain x xs where "str m = x # xs"
    by (cases "str m") auto
  with le show ?case by simp
qed

lemma tokenize_length: "length (tokenize source) \<le> length source"
proof -
  have "length (tokenize source) = length (map (\<lambda>t. (type t, value t)) (tokenize source))"
    by simp
  also have "\<dots> \<le> length (sregex_iterator 0 source)"
    unfolding tokenize_kinds_of_matches by simp
  also have "\<dots> \<le> length (concat (map str (sregex_iterator 0 source)))"
    using matches_in_place [of "[]" 0 source source]
    by (intro length_concat_nonempty) simp
  also have "\<dots> = length (filter (\<lambda>c. c \<noteq> CR) source)"
    unfolding matches_cover by simp
  also have "\<dots> \<le> length source"
    by (rule length_filter_le)
  finally show ?thesis .
qed

text \<open>
  What the tokenizer can produce: the text of a \<open>KEYWORD\<close> token is one of the keyword
  alternatives, the text of an \<open>OPERATOR\<close> token one of the operator alternatives, and the
  text of a \<open>PUNCTUATION\<close> token one character of the punctuation set.
\<close>

lemma matches_from_pattern:
  "list_all (\<lambda>m. \<exists>s. tokenPatterns s = Some (matched_group m, str m)) (sregex_iterator pos rest)"
proof (induction pos rest rule: sregex_iterator.induct)
  case (1 pos)
  then show ?case by simp
next
  case (2 pos c cs)
  show ?case
  proof (cases "tokenPatterns (c # cs)")
    case None
    with "2.IH"(1) [OF None] show ?thesis by simp
  next
    case (Some gm)
    obtain g m where gm: "gm = (g, m)" by (cases gm)
    have tp: "tokenPatterns (c # cs) = Some (g, m)" using Some gm by simp
    from "2.IH"(2) [OF Some gm [symmetric]] tp show ?thesis
      by auto
  qed
qed

lemma tokenize_kinds:
  assumes "t \<in> set (tokenize source)"
  shows "(type t = KEYWORD \<longrightarrow> value t \<in> set keyword_alternatives)
    \<and> (type t = OPERATOR \<longrightarrow> value t \<in> set operator_alternatives)
    \<and> (type t = PUNCTUATION \<longrightarrow> (\<exists>c. value t = [c] \<and> c \<in> set punctuation))"
proof -
  from assms have "(type t, value t) \<in> set (map (\<lambda>t. (type t, value t)) (tokenize source))"
    by force
  then obtain m where m: "m \<in> set (sregex_iterator 0 source)"
    and ty: "type t = group_type (matched_group m)" and v: "value t = str m"
    unfolding tokenize_kinds_of_matches by auto
  from m matches_from_pattern [of 0 source]
  obtain s where tp: "tokenPatterns s = Some (matched_group m, str m)"
    unfolding list_all_iff by blast
  from tokenPatterns_cases [OF tp] consider
      (kw) "matched_group m = 1" "match_keyword s = Some (str m)"
    | (ident) "matched_group m = 2"
    | (lit) "matched_group m = 3"
    | (oper) "matched_group m = 4" "match_operator s = Some (str m)"
    | (punct) "matched_group m = 5" "match_punctuation s = Some (str m)"
    | (other) "matched_group m = 6 \<or> matched_group m = 7 \<or> matched_group m = 8"
    by blast
  then show ?thesis
  proof cases
    case kw
    then show ?thesis
      using match_keyword_prefix [of s "str m"] ty v by (simp add: group_type_def)
  next
    case ident
    then show ?thesis using ty by (simp add: group_type_def)
  next
    case lit
    then show ?thesis using ty by (simp add: group_type_def)
  next
    case oper
    then show ?thesis
      using match_operator_prefix [of s "str m"] ty v by (simp add: group_type_def)
  next
    case punct
    from punct(2) have "\<exists>c. str m = [c] \<and> c \<in> set punctuation"
      unfolding match_punctuation_def by (auto split: list.splits if_splits dest: sym)
    with punct(1) show ?thesis
      using ty v by (simp add: group_type_def)
  next
    case other
    then show ?thesis using ty by (auto simp: group_type_def)
  qed
qed

text \<open>
  Hence, for no source at all, the token sequence contains a keyword \<^verbatim>\<open>for\<close>, an operator
  \<^verbatim>\<open>!\<close> or a punctuation \<^verbatim>\<open>.\<close>: the tokens that \<^verbatim>\<open>match(KEYWORD, "for")\<close> in
  \<^verbatim>\<open>parseStatement\<close>, \<^verbatim>\<open>match(OPERATOR, "!")\<close> in \<^verbatim>\<open>parseExpression\<close> and
  \<^verbatim>\<open>match(PUNCTUATION, ".")\<close> in \<^verbatim>\<open>parseFileOperation\<close> wait for.
\<close>

lemma tokenize_never_for_not_dot:
  "\<lparr>type = KEYWORD, value = ''for'', line = n\<rparr> \<notin> set (tokenize source)
   \<and> \<lparr>type = OPERATOR, value = ''!'', line = n\<rparr> \<notin> set (tokenize source)
   \<and> \<lparr>type = PUNCTUATION, value = ''.'', line = n\<rparr> \<notin> set (tokenize source)"
proof -
  have "''for'' \<notin> set keyword_alternatives"
    unfolding keyword_alternatives_def by simp
  moreover have "''!'' \<notin> set operator_alternatives"
    unfolding operator_alternatives_def by simp
  moreover have "CHR ''.'' \<notin> set punctuation"
    unfolding punctuation_def by simp
  ultimately show ?thesis
    using tokenize_kinds [of "\<lparr>type = KEYWORD, value = ''for'', line = n\<rparr>" source]
      tokenize_kinds [of "\<lparr>type = OPERATOR, value = ''!'', line = n\<rparr>" source]
      tokenize_kinds [of "\<lparr>type = PUNCTUATION, value = ''.'', line = n\<rparr>" source]
    by auto
qed

text \<open>
  What happens to a character that only the last group can take, at any point of the scan:
  if it is not a carriage return it becomes an \<open>UNKNOWN\<close> token on the current line; a
  carriage return is matched by no group at all and is passed over without a token.
\<close>

lemma unknown_token_emitted:
  assumes "match_keyword (c # rest) = None" and "match_identifier (c # rest) = None"
    and "match_literal (c # rest) = None" and "match_operator (c # rest) = None"
    and "match_punctuation (c # rest) = None" and "match_whitespace (c # rest) = None"
    and "match_newline (c # rest) = None" and "c \<noteq> CR"
  shows "tokenize_loop (sregex_iterator pos (c # rest)) tokens ln =
    tokenize_loop (sregex_iterator (Suc pos) rest)
      (tokens @ [\<lparr>type = UNKNOWN, value = [c], line = ln\<rparr>]) ln"
proof -
  have "tokenPatterns (c # rest) = Some (8, [c])"
    using assms by (rule unknown_fallback)
  then show ?thesis
    by (simp add: tokenize_loop_step emits_def group_type_def)
qed

lemma tokenPatterns_CR: "tokenPatterns (CR # rest) = None"
  by (simp add: tokenPatterns_def match_keyword_def match_operator_def first_alternative_def
      keyword_alternatives_def operator_alternatives_def match_identifier_def letter_def
      match_literal_def match_punctuation_def punctuation_def match_whitespace_def
      match_newline_def match_unknown_def any_char_def CR_def LF_def TAB_def DQUOTE_def)

lemma carriage_return_dropped:
  "tokenize_loop (sregex_iterator pos (CR # rest)) tokens ln =
     tokenize_loop (sregex_iterator (Suc pos) rest) tokens ln"
  by (simp add: tokenPatterns_CR)

text \<open>
  The counter after a run of line feeds: each one is a match of group 7 and increments the
  32-bit counter.
\<close>

lemma tokenPatterns_LF: "tokenPatterns (LF # rest) = Some (7, [LF])"
  by (simp add: tokenPatterns_def match_keyword_def match_operator_def first_alternative_def
      keyword_alternatives_def operator_alternatives_def match_identifier_def letter_def
      match_literal_def match_punctuation_def punctuation_def match_whitespace_def
      match_newline_def LF_def TAB_def DQUOTE_def)

lemma int32_wrap_increment: "int32_wrap (int32_wrap x + 1) = int32_wrap (x + 1)"
proof -
  have "(x + 2147483648) mod 4294967296 + 1 = ((x + 2147483648) mod 4294967296 + 1 mod 4294967296)"
    by simp
  have "((x + 2147483648) mod 4294967296 + 1) mod 4294967296 = (x + 2147483648 + 1) mod 4294967296"
    by (rule mod_add_left_eq)
  then show ?thesis
    unfolding int32_wrap_def by (simp add: add.commute add.left_commute)
qed

lemma tokenize_loop_newlines:
  "tokenize_loop (sregex_iterator pos (replicate n LF @ rest)) tokens (int32_wrap x) =
     tokenize_loop (sregex_iterator (pos + n) rest) tokens (int32_wrap (x + int n))"
proof (induction n arbitrary: pos x)
  case 0
  show ?case by simp
next
  case (Suc n)
  have "tokenize_loop (sregex_iterator pos (replicate (Suc n) LF @ rest)) tokens (int32_wrap x) =
      tokenize_loop (sregex_iterator (Suc pos) (replicate n LF @ rest)) tokens
        (int32_wrap (int32_wrap x + 1))"
    by (simp add: tokenPatterns_LF tokenize_loop_step emits_def)
  also have "\<dots> = tokenize_loop (sregex_iterator (Suc pos + n) rest) tokens
      (int32_wrap (x + 1 + int n))"
    unfolding int32_wrap_increment by (rule Suc.IH)
  finally show ?case
    by (simp add: add.commute add.left_commute)
qed

lemma tokenize_after_newlines:
  "tokenize (replicate n LF @ ''a'') =
     [\<lparr>type = IDENTIFIER, value = ''a'', line = int32_wrap (1 + int n)\<rparr>]"
proof -
  have one: "int32_wrap 1 = 1"
    by (simp add: int32_wrap_def)
  have a: "tokenPatterns ''a'' = Some (2, ''a'')"
    by code_simp
  have "tokenize (replicate n LF @ ''a'') =
      tokenize_loop (sregex_iterator (0 + n) ''a'') [] (int32_wrap (1 + int n))"
    unfolding tokenize_def using tokenize_loop_newlines [of 0 n "''a''" "[]" 1]
    by (simp only: one)
  also have "\<dots> = [\<lparr>type = IDENTIFIER, value = ''a'', line = int32_wrap (1 + int n)\<rparr>]"
    using a by simp
  finally show ?thesis .
qed

lemma count_list_replicate_same: "count_list (replicate n x) x = n"
  by (induction n) simp_all

lemma newlines_before_replicate: "newlines_before n (replicate n LF @ rest) = int n"
  unfolding newlines_before_def by (simp add: count_list_replicate_same)

text \<open>
  C5, as stated for every source, fails once the 32-bit counter overflows: after
  \<open>2^31 - 1\<close> line feeds the identifier \<^verbatim>\<open>a\<close> is not reported on line \<open>2^31\<close>, which is
  1 plus the number of line feeds before it.
\<close>

theorem C5_counterexample:
  "tokenize (replicate 2147483647 LF @ ''a'') =
     [\<lparr>type = IDENTIFIER, value = ''a'', line = - 2147483648\<rparr>]
   \<and> 1 + newlines_before 2147483647 (replicate 2147483647 LF @ ''a'') = 2147483648"
proof -
  have w: "int32_wrap (1 + int 2147483647) = - 2147483648"
    by (simp add: int32_wrap_def)
  have "tokenize (replicate 2147483647 LF @ ''a'') =
      [\<lparr>type = IDENTIFIER, value = ''a'', line = int32_wrap (1 + int 2147483647)\<rparr>]"
    by (rule tokenize_after_newlines)
  then have t: "tokenize (replicate 2147483647 LF @ ''a'') =
      [\<lparr>type = IDENTIFIER, value = ''a'', line = - 2147483648\<rparr>]"
    by (simp only: w)
  have "newlines_before 2147483647 (replicate 2147483647 LF @ ''a'') = int 2147483647"
    by (rule newlines_before_replicate)
  then have n: "1 + newlines_before 2147483647 (replicate 2147483647 LF @ ''a'') = 2147483648"
    by (simp only: of_nat_numeral)
  from t n show ?thesis
    by (rule conjI)
qed

text \<open>
  C5, amended.  For every source with fewer than \<open>2^31 - 1\<close> line feeds (so that the 32-bit
  line counter never overflows), the tokens are exactly the tokens of the emitting matches,
  in order, and the line of each is 1 plus the number of line feeds in the source before the
  position of its match; the text of every match lies in the source at that position and is
  not empty, so the position is that of the token's first character; and the line numbers
  never decrease along the token sequence.
\<close>

theorem C5_token_lines:
  assumes "count_list source LF < 2147483647"
  shows "tokenize source = map (token_of source) (filter emits (sregex_iterator 0 source))
   \<and> list_all (\<lambda>m. take (length (str m)) (drop (match_position m) source) = str m \<and> str m \<noteq> [])
       (sregex_iterator 0 source)
   \<and> sorted (map line (tokenize source))"
  using tokenize_tokens [OF assms] matches_in_place [of "[]" 0 source source]
    tokenize_sorted [OF assms]
  by simp

theorem C5_token_lines_witness:
  "count_list (''int a'' @ [LF] @ ''b;'') LF < 2147483647
   \<and> tokenize (''int a'' @ [LF] @ ''b;'') =
     [\<lparr>type = KEYWORD, value = ''int'', line = 1\<rparr>,
      \<lparr>type = IDENTIFIER, value = ''a'', line = 1\<rparr>,
      \<lparr>type = IDENTIFIER, value = ''b'', line = 2\<rparr>,
      \<lparr>type = PUNCTUATION, value = '';'', line = 2\<rparr>]
   \<and> sorted (map line (tokenize (''int a'' @ [LF] @ ''b;'')))"
proof -
  let ?src = "''int a'' @ [LF] @ ''b;''"
  have h: "count_list ?src LF < 2147483647"
    by (simp add: LF_def)
  from C5_token_lines [OF h]
  have t: "tokenize ?src = map (token_of ?src) (filter emits (sregex_iterator 0 ?src))"
    and s: "sorted (map line (tokenize ?src))"
    by blast+
  have "map (token_of ?src) (filter emits (sregex_iterator 0 ?src)) =
     [\<lparr>type = KEYWORD, value = ''int'', line = 1\<rparr>,
      \<lparr>type = IDENTIFIER, value = ''a'', line = 1\<rparr>,
      \<lparr>type = IDENTIFIER, value = ''b'', line = 2\<rparr>,
      \<lparr>type = PUNCTUATION, value = '';'', line = 2\<rparr>]"
    by code_simp
  with t have "tokenize ?src =
     [\<lparr>type = KEYWORD, value = ''int'', line = 1\<rparr>,
      \<lparr>type = IDENTIFIER, value = ''a'', line = 1\<rparr>,
      \<lparr>type = IDENTIFIER, value = ''b'', line = 2\<rparr>,
      \<lparr>type = PUNCTUATION, value = '';'', line = 2\<rparr>]"
    by (rule trans)
  with h s show ?thesis
    by blast
qed

text \<open>
  C9.  The pattern labels its last group \<^verbatim>\<open>(.)\<close> as the catch-all for unknown characters
  and the loop ends with a catch-all \<^verbatim>\<open>else\<close>, but \<^verbatim>\<open>.\<close> does not match a carriage return
  and no other group does either.  For the one-character source consisting of a carriage
  return no group matches, the iterator yields no match and the tokenizer returns no token
  at all, where the empty source gives no token and the source \<^verbatim>\<open>@\<close> gives one \<open>UNKNOWN\<close>
  token on line 1.  By lemma \<open>carriage_return_dropped\<close> a carriage return is lost at every
  point of every source.
\<close>

theorem C9_carriage_return_lost:
  "match_keyword [CR] = None \<and> match_identifier [CR] = None \<and> match_literal [CR] = None
   \<and> match_operator [CR] = None \<and> match_punctuation [CR] = None
   \<and> match_whitespace [CR] = None \<and> match_newline [CR] = None
   \<and> match_unknown [CR] = None
   \<and> tokenize [CR] = []
   \<and> tokenize (''a'' @ [CR] @ ''b'') =
       [\<lparr>type = IDENTIFIER, value = ''a'', line = 1\<rparr>,
        \<lparr>type = IDENTIFIER, value = ''b'', line = 1\<rparr>]
   \<and> tokenize [] = []
   \<and> tokenize ''@'' = [\<lparr>type = UNKNOWN, value = ''@'', line = 1\<rparr>]"
  by code_simp

section \<open>Properties of the parser\<close>

lemma ends_returnP: "Q x s \<Longrightarrow> ends (returnP x s) ok Q"
  unfolding ends_def returnP_def by simp

lemma ends_throwP: "balanced s \<Longrightarrow> harmless ok e \<Longrightarrow> ends (throwP e s) ok Q"
  unfolding ends_def throwP_def by simp

lemma ends_thenP:
  assumes "ends r ok Q"
    and "\<And>x s. r = Inr (x, s) \<Longrightarrow> Q x s \<Longrightarrow> ends (f x s) ok R"
  shows "ends (thenP r f) ok R"
proof (cases r)
  case (Inl e)
  with assms(1) show ?thesis
    unfolding ends_def by simp
next
  case (Inr xs)
  obtain x s where xs: "xs = (x, s)" by (cases xs)
  with Inr assms(1) have "Q x s"
    unfolding ends_def by simp
  with assms(2) Inr xs show ?thesis by simp
qed

lemma ends_post:
  assumes "ends r ok Q" and "\<And>x s. Q x s \<Longrightarrow> Q' x s"
  shows "ends r ok Q'"
  using assms unfolding ends_def by (auto split: sum.splits)

lemma ends_fuel:
  assumes "ends r ok' Q" and "ok \<Longrightarrow> ok'"
  shows "ends r ok Q"
  using assms unfolding ends_def harmless_def by (auto split: sum.splits)

lemma tracked_balanced: "tracked ts d p s \<Longrightarrow> balanced s"
  unfolding tracked_def balanced_def by simp

lemma tracked_lower: "tracked ts d p s \<Longrightarrow> q \<le> p \<Longrightarrow> tracked ts d q s"
  unfolding tracked_def by simp

lemma harmless_runtime_error:
  "msg \<noteq> ''Mismatched brackets detected at line '' \<Longrightarrow> harmless ok (runtime_error msg n)"
  unfolding harmless_def by simp

lemma harmless_OutOfRange: "harmless ok (OutOfRange i)"
  unfolding harmless_def by simp

lemma peek_ends:
  "tracked ts d p s \<Longrightarrow> ends (peek ts s) ok (\<lambda>_. tracked ts d p)"
  unfolding peek_def
  by (simp add: ends_returnP ends_throwP tracked_balanced harmless_OutOfRange)

lemma previous_ends:
  "tracked ts d (Suc p) s \<Longrightarrow> ends (previous ts s) ok (\<lambda>_. tracked ts d (Suc p))"
  unfolding previous_def
  by (auto simp: ends_returnP tracked_def)

lemma advance_ends:
  "tracked ts d (Suc p) s \<Longrightarrow> ends (advance ts s) ok (\<lambda>_. tracked ts d (Suc p))"
  unfolding advance_def previous_def isAtEnd_def
  by (auto simp: ends_returnP tracked_def)

lemma match_result:
  "match ts ty val s = Inr (False, s)
   \<or> (position s < length ts
       \<and> match ts ty val s = Inr (True, s\<lparr>position := position s + 1\<rparr>))"
  unfolding match_def advance_def isAtEnd_def peek_def previous_def returnP_def throwP_def
  by auto

lemma match_ends:
  assumes "tracked ts d p s"
  shows "ends (match ts ty val s) ok
    (\<lambda>b s'. if b then tracked ts d (Suc p) s' else tracked ts d p s')"
  using match_result [of ts ty val s] assms
  unfolding ends_def tracked_def by auto

lemma throw_at_line_ends:
  assumes "tracked ts d p s" and "msg \<noteq> ''Mismatched brackets detected at line ''"
  shows "ends (throw_at_line ts msg s) ok Q"
  unfolding throw_at_line_def
proof (rule ends_thenP [OF peek_ends [OF assms(1)]])
  fix x s' assume "tracked ts d p s'"
  then show "ends (throwP (runtime_error msg (line x)) s') ok Q"
    using assms(2) by (simp add: ends_throwP tracked_balanced harmless_runtime_error)
qed

lemma expect_ends:
  assumes "tracked ts d p s" and "msg \<noteq> ''Mismatched brackets detected at line ''"
  shows "ends (expect ts ty val msg s) ok (\<lambda>_. tracked ts d (Suc p))"
  unfolding expect_def
proof (rule ends_thenP [OF match_ends [OF assms(1)]])
  fix b s'
  assume "if b then tracked ts d (Suc p) s' else tracked ts d p s'"
  then show "ends (if \<not> b then throw_at_line ts msg s' else returnP () s') ok
      (\<lambda>_. tracked ts d (Suc p))"
    using assms(2) by (cases b) (simp_all add: throw_at_line_ends ends_returnP)
qed

lemma open_bracket_ends:
  assumes "tracked ts d (Suc p) s"
  shows "ends (open_bracket ts c s) ok (\<lambda>_. tracked ts (Suc d) (Suc p))"
  using assms
  unfolding open_bracket_def push_bracket_def push_line_def previous_def returnP_def
    throwP_def ends_def tracked_def
  by auto

lemma close_bracket_ends:
  assumes "tracked ts (Suc d) p s"
  shows "ends (close_bracket s) ok (\<lambda>_. tracked ts d p)"
proof -
  from assms obtain c cs n ns where "bracketStack s = c # cs" and "lineStack s = n # ns"
    unfolding tracked_def by (cases "bracketStack s"; cases "lineStack s") auto
  with assms show ?thesis
    unfolding close_bracket_def pop_bracket_def pop_line_def returnP_def ends_def tracked_def
    by simp
qed

lemma parseExpression_ends:
  "tracked ts d (Suc p) s \<Longrightarrow> ends (parseExpression ts s) ok (\<lambda>_. tracked ts d (Suc p))"
proof (induction ts s rule: parseExpression.induct)
  case (1 ts s)
  show ?case
    unfolding parseExpression.simps [of ts s]
  proof (rule ends_thenP [OF match_ends [OF "1.prems"]])
    fix b s1
    assume m: "match ts OPERATOR ''!'' s = Inr (b, s1)"
      and t: "if b then tracked ts d (Suc (Suc p)) s1 else tracked ts d (Suc p) s1"
    show "ends (if b
        then thenP (previous ts s1) (\<lambda>op s. thenP (parseExpression ts s)
               (\<lambda>right. returnP (Some (UnaryOperationNode (value op) right))))
        else thenP (advance ts s1) (\<lambda>_. returnP None)) ok (\<lambda>_. tracked ts d (Suc p))"
    proof (cases b)
      case True
      with t have t1: "tracked ts d (Suc p) s1"
        by (simp add: tracked_lower)
      have "ends (thenP (previous ts s1) (\<lambda>op s. thenP (parseExpression ts s)
               (\<lambda>right. returnP (Some (UnaryOperationNode (value op) right))))) ok
             (\<lambda>_. tracked ts d (Suc p))"
      proof (rule ends_thenP [OF previous_ends [OF t1]])
        fix op s2
        assume pr: "previous ts s1 = Inr (op, s2)" and t2: "tracked ts d (Suc p) s2"
        show "ends (thenP (parseExpression ts s2)
            (\<lambda>right. returnP (Some (UnaryOperationNode (value op) right)))) ok
            (\<lambda>_. tracked ts d (Suc p))"
        proof (rule ends_thenP [OF "1.IH" [OF m True pr t2]])
          fix right s3 assume "tracked ts d (Suc p) s3"
          then show "ends (returnP (Some (UnaryOperationNode (value op) right)) s3) ok
              (\<lambda>_. tracked ts d (Suc p))"
            by (rule ends_returnP)
        qed
      qed
      with True show ?thesis by simp
    next
      case False
      with t have t1: "tracked ts d (Suc p) s1" by simp
      have "ends (thenP (advance ts s1) (\<lambda>_. returnP None)) ok (\<lambda>_. tracked ts d (Suc p))"
        by (rule ends_thenP [OF advance_ends [OF t1]]) (rule ends_returnP)
      with False show ?thesis by simp
    qed
  qed
qed


lemma thenP_returnP: "thenP (returnP x s) f = f x s"
  unfolding returnP_def by simp

lemmas step_simps = if_True if_False not_True_eq_False not_False_eq_True thenP_returnP

lemma match_ends_cases:
  assumes "tracked ts d p s"
    and "\<And>s'. match ts ty val s = Inr (True, s') \<Longrightarrow> tracked ts d (Suc p) s'
           \<Longrightarrow> ends (f True s') ok R"
    and "match ts ty val s = Inr (False, s) \<Longrightarrow> ends (f False s) ok R"
  shows "ends (thenP (match ts ty val s) f) ok R"
proof -
  from match_result [of ts ty val s] consider
      (no) "match ts ty val s = Inr (False, s)"
    | (yes) "position s < length ts"
        "match ts ty val s = Inr (True, s\<lparr>position := position s + 1\<rparr>)"
    by blast
  then show ?thesis
  proof cases
    case no
    with assms(3) show ?thesis by simp
  next
    case yes
    from yes(1) assms(1) have "tracked ts d (Suc p) (s\<lparr>position := position s + 1\<rparr>)"
      unfolding tracked_def by simp
    with assms(2) yes(2) show ?thesis by simp
  qed
qed

lemma declaration_loop_ends:
  "tracked ts d p s \<Longrightarrow> ends (declaration_loop ts ids s) ok (\<lambda>_. tracked ts d (Suc p))"
proof (induction ts ids s arbitrary: p rule: declaration_loop.induct)
  case (1 ts ids s)
  show ?case
    unfolding declaration_loop.simps [of ts ids s]
  proof (rule match_ends_cases [OF "1.prems"])
    fix s1
    assume m1: "match ts IDENTIFIER [] s = Inr (True, s1)" and t1: "tracked ts d (Suc p) s1"
    show "ends (if True
        then thenP (previous ts s1) (\<lambda>token s.
               thenP (match ts PUNCTUATION '','' s) (\<lambda>again s.
                 if again then declaration_loop ts (ids @ [IdentifierNode (value token)]) s
                 else returnP (ids @ [IdentifierNode (value token)]) s))
        else throw_at_line ts ''Expected identifier in variable declaration at line '' s1)
        ok (\<lambda>_. tracked ts d (Suc p))"
      unfolding if_True
    proof (rule ends_thenP [OF previous_ends [OF t1]])
      fix token s2
      assume pr: "previous ts s1 = Inr (token, s2)" and t2: "tracked ts d (Suc p) s2"
      show "ends (thenP (match ts PUNCTUATION '','' s2) (\<lambda>again s.
                 if again then declaration_loop ts (ids @ [IdentifierNode (value token)]) s
                 else returnP (ids @ [IdentifierNode (value token)]) s))
          ok (\<lambda>_. tracked ts d (Suc p))"
      proof (rule match_ends_cases [OF t2])
        fix s3
        assume m2: "match ts PUNCTUATION '','' s2 = Inr (True, s3)"
          and t3: "tracked ts d (Suc (Suc p)) s3"
        have "ends (declaration_loop ts (ids @ [IdentifierNode (value token)]) s3) ok
            (\<lambda>_. tracked ts d (Suc (Suc (Suc p))))"
          using "1.IH" [OF m1 _ pr m2 _ t3] by simp
        then have "ends (declaration_loop ts (ids @ [IdentifierNode (value token)]) s3) ok
            (\<lambda>_. tracked ts d (Suc p))"
          by (rule ends_post) (simp add: tracked_lower)
        then show "ends (if True
            then declaration_loop ts (ids @ [IdentifierNode (value token)]) s3
            else returnP (ids @ [IdentifierNode (value token)]) s3) ok
            (\<lambda>_. tracked ts d (Suc p))"
          by simp
      next
        show "ends (if False
            then declaration_loop ts (ids @ [IdentifierNode (value token)]) s2
            else returnP (ids @ [IdentifierNode (value token)]) s2) ok
            (\<lambda>_. tracked ts d (Suc p))"
          using t2 by (simp add: ends_returnP)
      qed
    qed
  next
    show "ends (if False
        then thenP (previous ts s) (\<lambda>token s.
               thenP (match ts PUNCTUATION '','' s) (\<lambda>again s.
                 if again then declaration_loop ts (ids @ [IdentifierNode (value token)]) s
                 else returnP (ids @ [IdentifierNode (value token)]) s))
        else throw_at_line ts ''Expected identifier in variable declaration at line '' s)
        ok (\<lambda>_. tracked ts d (Suc p))"
      using "1.prems" by (simp add: throw_at_line_ends)
  qed
qed

lemma parseVariableDeclaration_ends:
  assumes "tracked ts d (Suc p) s"
  shows "ends (parseVariableDeclaration ts s) ok (\<lambda>_. tracked ts d (Suc p))"
  unfolding parseVariableDeclaration_def
  apply (rule ends_thenP [OF previous_ends [OF assms]])
  apply (rule ends_thenP [OF declaration_loop_ends], assumption)
  apply (rule ends_thenP [OF expect_ends], assumption, simp)
  apply (rule ends_returnP)
  apply (erule tracked_lower)
  apply simp
  done

lemma parseFileDeclaration_ends:
  assumes "tracked ts d p s"
  shows "ends (parseFileDeclaration ts s) ok (\<lambda>_. tracked ts d (Suc p))"
  unfolding parseFileDeclaration_def
  apply (rule ends_thenP [OF expect_ends [OF assms]], simp)
  apply (rule ends_thenP [OF previous_ends], assumption)
  apply (rule ends_thenP [OF expect_ends], assumption, simp)
  apply (rule ends_thenP [OF open_bracket_ends], assumption)
  apply (rule ends_thenP [OF expect_ends], assumption, simp)
  apply (rule ends_thenP [OF expect_ends], assumption, simp)
  apply (rule ends_thenP [OF close_bracket_ends], assumption)
  apply (rule ends_thenP [OF expect_ends], assumption, simp)
  apply (rule ends_returnP)
  apply (erule tracked_lower)
  apply simp
  done

lemma parseFileOperation_ends:
  assumes "tracked ts d (Suc p) s"
  shows "ends (parseFileOperation ts s) ok (\<lambda>_. tracked ts d (Suc p))"
  unfolding parseFileOperation_def
  apply (rule ends_thenP [OF previous_ends [OF assms]])
  apply (rule match_ends_cases, assumption)
   apply (simp only: step_simps)
   apply (rule ends_thenP [OF expect_ends], assumption, simp)
   apply (rule ends_thenP [OF expect_ends], assumption, simp)
   apply (rule ends_thenP [OF open_bracket_ends], assumption)
   apply (rule ends_thenP [OF expect_ends], assumption, simp)
   apply (rule ends_thenP [OF close_bracket_ends], assumption)
   apply (rule ends_thenP [OF expect_ends], assumption, simp)
   apply (rule ends_returnP)
   apply (erule tracked_lower)
   apply simp
  apply (simp only: step_simps)
  apply (rule throw_at_line_ends, assumption, simp)
  done


lemma parseIfStatement_ends:
  assumes loop: "\<And>s'. tracked ts (Suc d) (Suc (Suc p)) s' \<Longrightarrow>
      ends (statement_loop n ts s') ok (\<lambda>_. tracked ts (Suc d) (Suc (Suc p)))"
    and "tracked ts d p s"
  shows "ends (parseIfStatement n ts s) ok (\<lambda>_. tracked ts d (Suc p))"
  unfolding parseIfStatement.simps
  apply (rule ends_thenP [OF expect_ends [OF assms(2)]], simp)
  apply (rule ends_thenP [OF open_bracket_ends], assumption)
  apply (rule ends_thenP [OF parseExpression_ends], assumption)
  apply (rule ends_thenP [OF expect_ends], assumption, simp)
  apply (rule ends_thenP [OF close_bracket_ends], assumption)
  apply (rule ends_thenP [OF expect_ends], assumption, simp)
  apply (rule ends_thenP [OF open_bracket_ends], assumption)
  apply (rule ends_thenP [OF loop])
   apply (erule tracked_lower, simp)
  apply (rule ends_thenP [OF close_bracket_ends], assumption)
  apply (rule ends_returnP)
  apply (erule tracked_lower)
  apply simp
  done

lemma parseWhileStatement_ends:
  assumes loop: "\<And>s'. tracked ts (Suc d) (Suc (Suc p)) s' \<Longrightarrow>
      ends (statement_loop n ts s') ok (\<lambda>_. tracked ts (Suc d) (Suc (Suc p)))"
    and "tracked ts d p s"
  shows "ends (parseWhileStatement n ts s) ok (\<lambda>_. tracked ts d (Suc p))"
  unfolding parseWhileStatement.simps
  apply (rule ends_thenP [OF expect_ends [OF assms(2)]], simp)
  apply (rule ends_thenP [OF open_bracket_ends], assumption)
  apply (rule ends_thenP [OF parseExpression_ends], assumption)
  apply (rule ends_thenP [OF expect_ends], assumption, simp)
  apply (rule ends_thenP [OF close_bracket_ends], assumption)
  apply (rule ends_thenP [OF expect_ends], assumption, simp)
  apply (rule ends_thenP [OF open_bracket_ends], assumption)
  apply (rule ends_thenP [OF loop])
   apply (erule tracked_lower, simp)
  apply (rule ends_thenP [OF close_bracket_ends], assumption)
  apply (rule ends_returnP)
  apply (erule tracked_lower)
  apply simp
  done

lemma parseForStatement_ends:
  assumes loop: "\<And>s'. tracked ts (Suc d) (Suc (Suc p)) s' \<Longrightarrow>
      ends (statement_loop n ts s') ok (\<lambda>_. tracked ts (Suc d) (Suc (Suc p)))"
    and "tracked ts d p s"
  shows "ends (parseForStatement n ts s) ok (\<lambda>_. tracked ts d (Suc p))"
  unfolding parseForStatement.simps
  apply (rule ends_thenP [OF expect_ends [OF assms(2)]], simp)
  apply (rule ends_thenP [OF open_bracket_ends], assumption)
  apply (rule ends_thenP [OF parseExpression_ends], assumption)
  apply (rule ends_thenP [OF expect_ends], assumption, simp)
  apply (rule ends_thenP [OF parseExpression_ends], assumption)
  apply (rule ends_thenP [OF expect_ends], assumption, simp)
  apply (rule ends_thenP [OF parseExpression_ends], assumption)
  apply (rule ends_thenP [OF expect_ends], assumption, simp)
  apply (rule ends_thenP [OF close_bracket_ends], assumption)
  apply (rule ends_thenP [OF expect_ends], assumption, simp)
  apply (rule ends_thenP [OF open_bracket_ends], assumption)
  apply (rule ends_thenP [OF loop])
   apply (erule tracked_lower, simp)
  apply (rule ends_thenP [OF close_bracket_ends], assumption)
  apply (rule ends_returnP)
  apply (erule tracked_lower)
  apply simp
  done


lemma parseStatement_Suc_ends:
  assumes loop: "\<And>s'. tracked ts (Suc d) (Suc (Suc (Suc p))) s' \<Longrightarrow>
      ends (statement_loop n ts s') ok (\<lambda>_. tracked ts (Suc d) (Suc (Suc (Suc p))))"
    and t: "tracked ts d p s"
  shows "ends (parseStatement (Suc n) ts s) ok (\<lambda>_. tracked ts d (Suc p))"
  unfolding parseStatement.simps
  apply (rule match_ends_cases [OF t])
   apply (simp only: step_simps)
   apply (rule ends_thenP [OF parseVariableDeclaration_ends], assumption)
   apply (rule ends_returnP, assumption)
  apply (simp only: step_simps)
  apply (rule match_ends_cases [OF t])
   apply (simp only: step_simps)
   apply (rule ends_thenP [OF parseFileDeclaration_ends], assumption)
   apply (rule ends_returnP, erule tracked_lower, simp)
  apply (simp only: step_simps)
  apply (rule match_ends_cases [OF t])
   apply (simp only: step_simps)
   apply (rule ends_thenP [OF parseFileDeclaration_ends], assumption)
   apply (rule ends_returnP, erule tracked_lower, simp)
  apply (simp only: step_simps)
  apply (rule match_ends_cases [OF t])
   apply (simp only: step_simps)
   apply (rule ends_thenP [OF parseFileDeclaration_ends], assumption)
   apply (rule ends_returnP, erule tracked_lower, simp)
  apply (simp only: step_simps)
  apply (rule match_ends_cases [OF t])
   apply (simp only: step_simps)
   apply (rule ends_thenP [OF parseFileOperation_ends], assumption)
   apply (rule ends_returnP, assumption)
  apply (simp only: step_simps)
  apply (rule match_ends_cases [OF t])
   apply (simp only: step_simps)
   apply (rule ends_thenP [OF parseIfStatement_ends])
     apply (erule loop)
    apply assumption
   apply (rule ends_returnP, erule tracked_lower, simp)
  apply (simp only: step_simps)
  apply (rule match_ends_cases [OF t])
   apply (simp only: step_simps)
   apply (rule ends_thenP [OF parseWhileStatement_ends])
     apply (erule loop)
    apply assumption
   apply (rule ends_returnP, erule tracked_lower, simp)
  apply (simp only: step_simps)
  apply (rule match_ends_cases [OF t])
   apply (simp only: step_simps)
   apply (rule ends_thenP [OF parseForStatement_ends])
     apply (erule loop)
    apply assumption
   apply (rule ends_returnP, erule tracked_lower, simp)
  apply (simp only: step_simps)
  apply (rule ends_thenP [OF peek_ends [OF t]])
  apply (rule throw_at_line_ends, assumption, simp)
  done

lemma statement_loop_Suc_ends:
  assumes stmt: "ends (parseStatement n ts s) ok (\<lambda>_. tracked ts d (Suc p))"
    and loop: "\<And>s'. tracked ts d (Suc p) s' \<Longrightarrow>
      ends (statement_loop n ts s') ok (\<lambda>_. tracked ts d (Suc p))"
    and t: "tracked ts d p s"
  shows "ends (statement_loop (Suc n) ts s) ok (\<lambda>_. tracked ts d (Suc p))"
  unfolding statement_loop.simps
  apply (rule match_ends_cases [OF t])
   apply (simp only: step_simps)
   apply (rule ends_returnP, assumption)
  apply (simp only: step_simps)
  apply (rule ends_thenP [OF stmt])
  apply (erule loop)
  done


lemma ends_OutOfFuel:
  "balanced s \<Longrightarrow> \<not> ok \<Longrightarrow> ends (throwP OutOfFuel s) ok Q"
  unfolding ends_def throwP_def harmless_def by simp

lemma statements_end:
  "(\<forall>s d. tracked ts d 0 s \<longrightarrow>
      ends (parseStatement n ts s) (2 * (length ts - position s) + 1 \<le> n)
        (\<lambda>_. tracked ts d (Suc (position s))))
   \<and> (\<forall>s d. tracked ts d 0 s \<longrightarrow>
      ends (statement_loop n ts s) (2 * (length ts - position s) + 2 \<le> n)
        (\<lambda>_. tracked ts d (Suc (position s))))"
proof (induction n)
  case 0
  show ?case
    by (simp add: ends_OutOfFuel tracked_balanced)
next
  case (Suc n)
  from Suc have stmt: "ends (parseStatement n ts s) (2 * (length ts - position s) + 1 \<le> n)
      (\<lambda>_. tracked ts d (Suc (position s)))" if "tracked ts d 0 s" for s d
    using that by blast
  from Suc have loop: "ends (statement_loop n ts s) (2 * (length ts - position s) + 2 \<le> n)
      (\<lambda>_. tracked ts d (Suc (position s)))" if "tracked ts d 0 s" for s d
    using that by blast
  have loop_from: "ends (statement_loop n ts s') ok (\<lambda>_. tracked ts d q)"
    if t: "tracked ts d q s'" and fuel: "ok \<Longrightarrow> 2 * (length ts - q) + 2 \<le> n" for s' d q ok
  proof -
    from t have t0: "tracked ts d 0 s'" and q: "q \<le> position s'"
      unfolding tracked_def by simp_all
    have "ends (statement_loop n ts s') (2 * (length ts - position s') + 2 \<le> n)
        (\<lambda>_. tracked ts d q)"
      using loop [OF t0] by (rule ends_post) (use q in \<open>simp add: tracked_def\<close>)
    then show ?thesis
      by (rule ends_fuel) (use fuel q in simp)
  qed
  have stmt_from: "ends (parseStatement n ts s) ok (\<lambda>_. tracked ts d (Suc (position s)))"
    if t: "tracked ts d 0 s" and fuel: "ok \<Longrightarrow> 2 * (length ts - position s) + 1 \<le> n"
    for s d ok
    using stmt [OF t] by (rule ends_fuel) (use fuel in simp)
  have A: "ends (parseStatement (Suc n) ts s) (2 * (length ts - position s) + 1 \<le> Suc n)
      (\<lambda>_. tracked ts d (Suc (position s)))" if t0: "tracked ts d 0 s" for s d
  proof (rule parseStatement_Suc_ends)
    show "tracked ts d (position s) s"
      using t0 unfolding tracked_def by simp
  next
    fix s'
    assume t': "tracked ts (Suc d) (Suc (Suc (Suc (position s)))) s'"
    show "ends (statement_loop n ts s') (2 * (length ts - position s) + 1 \<le> Suc n)
        (\<lambda>_. tracked ts (Suc d) (Suc (Suc (Suc (position s)))))"
    proof (rule loop_from [OF t'])
      assume "2 * (length ts - position s) + 1 \<le> Suc n"
      moreover from t' have "position s + 3 \<le> length ts"
        unfolding tracked_def by simp
      ultimately show "2 * (length ts - Suc (Suc (Suc (position s)))) + 2 \<le> n"
        by simp
    qed
  qed
  have B: "ends (statement_loop (Suc n) ts s) (2 * (length ts - position s) + 2 \<le> Suc n)
      (\<lambda>_. tracked ts d (Suc (position s)))" if t0: "tracked ts d 0 s" for s d
  proof (rule statement_loop_Suc_ends)
    show "tracked ts d (position s) s"
      using t0 unfolding tracked_def by simp
  next
    show "ends (parseStatement n ts s) (2 * (length ts - position s) + 2 \<le> Suc n)
        (\<lambda>_. tracked ts d (Suc (position s)))"
      by (rule stmt_from [OF t0]) simp
  next
    fix s'
    assume t': "tracked ts d (Suc (position s)) s'"
    show "ends (statement_loop n ts s') (2 * (length ts - position s) + 2 \<le> Suc n)
        (\<lambda>_. tracked ts d (Suc (position s)))"
    proof (rule loop_from [OF t'])
      assume "2 * (length ts - position s) + 2 \<le> Suc n"
      moreover from t' have "position s + 1 \<le> length ts"
        unfolding tracked_def by simp
      ultimately show "2 * (length ts - Suc (position s)) + 2 \<le> n"
        by simp
    qed
  qed
  from A B show ?case by blast
qed

lemma parseStatement_ends:
  assumes "tracked ts d 0 s"
  shows "ends (parseStatement n ts s) (2 * (length ts - position s) + 1 \<le> n)
    (\<lambda>_. tracked ts d (Suc (position s)))"
  using statements_end [of ts n] assms by blast

lemma statement_loop_ends:
  assumes "tracked ts d 0 s"
  shows "ends (statement_loop n ts s) (2 * (length ts - position s) + 2 \<le> n)
    (\<lambda>_. tracked ts d (Suc (position s)))"
  using statements_end [of ts n] assms by blast

lemma program_loop_ends:
  "tracked ts d 0 s \<Longrightarrow>
     ends (program_loop n ts s) (2 * (length ts - position s) + 2 \<le> n)
       (\<lambda>_ s'. tracked ts d (position s) s' \<and> position s' = length ts)"
proof (induction n arbitrary: s)
  case 0
  then show ?case
    by (simp add: ends_OutOfFuel tracked_balanced)
next
  case (Suc n)
  let ?ok = "2 * (length ts - position s) + 2 \<le> Suc n"
  show ?case
  proof (cases "isAtEnd ts s")
    case True
    with Suc.prems have "tracked ts d (position s) s \<and> position s = length ts"
      unfolding isAtEnd_def tracked_def by simp
    then have "ends (returnP () s) ?ok
        (\<lambda>_ s'. tracked ts d (position s) s' \<and> position s' = length ts)"
      by (rule ends_returnP)
    with True show ?thesis
      by simp
  next
    case False
    have stmt: "ends (parseStatement n ts s) ?ok (\<lambda>_. tracked ts d (Suc (position s)))"
      using parseStatement_ends [OF Suc.prems] by (rule ends_fuel) simp
    have "ends (thenP (parseStatement n ts s) (\<lambda>_ s. program_loop n ts s)) ?ok
        (\<lambda>_ s'. tracked ts d (position s) s' \<and> position s' = length ts)"
    proof (rule ends_thenP [OF stmt])
      fix x s'
      assume t': "tracked ts d (Suc (position s)) s'"
      then have t0: "tracked ts d 0 s'" and q: "Suc (position s) \<le> position s'"
        and le: "position s' \<le> length ts"
        unfolding tracked_def by simp_all
      have "ends (program_loop n ts s') (2 * (length ts - position s') + 2 \<le> n)
          (\<lambda>_ s''. tracked ts d (position s) s'' \<and> position s'' = length ts)"
        using Suc.IH [OF t0] by (rule ends_post) (use q in \<open>simp add: tracked_def\<close>)
      then show "ends (program_loop n ts s') ?ok
          (\<lambda>_ s''. tracked ts d (position s) s'' \<and> position s'' = length ts)"
        by (rule ends_fuel) (use q le in simp)
    qed
    with False show ?thesis by simp
  qed
qed

lemma parseProgram_ends:
  assumes "tracked ts 0 0 s"
  shows "ends (parseProgram n ts s) (2 * (length ts - position s) + 2 \<le> n)
    (\<lambda>root s'. root = None \<and> bracketStack s' = [] \<and> lineStack s' = []
       \<and> position s' = length ts)"
  unfolding parseProgram_def
proof (rule ends_thenP [OF program_loop_ends [OF assms]])
  fix x s'
  assume "tracked ts 0 (position s) s' \<and> position s' = length ts"
  then have "bracketStack s' = []" and "lineStack s' = []" and "position s' = length ts"
    unfolding tracked_def by simp_all
  then show "ends (if bracketStack s' \<noteq> []
      then case lineStack s' of
             [] \<Rightarrow> throwP EmptyStack s'
           | errorLine # ls \<Rightarrow>
               throwP (runtime_error ''Mismatched brackets detected at line '' errorLine) s'
      else returnP None s') (2 * (length ts - position s) + 2 \<le> n)
    (\<lambda>root s'. root = None \<and> bracketStack s' = [] \<and> lineStack s' = []
       \<and> position s' = length ts)"
    by (simp add: ends_returnP)
qed

lemma tracked_new_Parser: "tracked ts 0 0 new_Parser"
  unfolding tracked_def new_Parser_def by simp

lemma parse_outcome:
  "ends (parseProgram (2 * length ts + 2) ts new_Parser) True
     (\<lambda>root s'. root = None \<and> bracketStack s' = [] \<and> lineStack s' = []
        \<and> position s' = length ts)"
  using parseProgram_ends [OF tracked_new_Parser, where ts = ts and n = "2 * length ts + 2"]
  by (rule ends_fuel) (simp add: new_Parser_def)

text \<open>
  The fuel that \<open>parse\<close> provides is never used up, and no stack is ever popped or read
  while empty, and \<^verbatim>\<open>previous()\<close> never reads before the start of the vector.
\<close>

lemma parse_fuel_suffices:
  "parse ts \<noteq> Inl OutOfFuel \<and> parse ts \<noteq> Inl EmptyStack \<and> parse ts \<noteq> Inl NegativeIndex"
  using parse_outcome [of ts]
  unfolding parse_def ends_def harmless_def
  by (auto split: sum.splits)

text \<open>
  Every statement parser pops what it pushed before it returns, and leaves by an exception
  otherwise, so \<^verbatim>\<open>parseProgram\<close> always finds the bracket stack empty after its loop: the
  exception \<^verbatim>\<open>Mismatched brackets detected\<close> is never raised, whatever the tokens.
\<close>

lemma parse_never_reports_mismatch:
  "parse ts \<noteq> Inl (runtime_error ''Mismatched brackets detected at line '' n)"
  using parse_outcome [of ts]
  unfolding parse_def ends_def harmless_def
  by (auto split: sum.splits)

text \<open>A parse that raises nothing returns the null pointer.\<close>

lemma parse_success_is_null: "parse ts = Inr root \<Longrightarrow> root = None"
  using parseProgram_ends [OF tracked_new_Parser, where ts = ts and n = "2 * length ts + 2"]
  unfolding parse_def ends_def
  by (auto split: sum.splits)


lemma ends_stacks_after:
  "ends r ok (\<lambda>_. tracked ts d p) \<Longrightarrow> stacks_after r d"
  unfolding ends_def stacks_after_def tracked_def by (auto split: sum.splits)

lemma loop_any_fuel:
  assumes "tracked ts d q s"
  shows "ends (statement_loop n ts s) False (\<lambda>_. tracked ts d q)"
proof -
  from assms have t0: "tracked ts d 0 s" and q: "q \<le> position s"
    unfolding tracked_def by simp_all
  have "ends (statement_loop n ts s) (2 * (length ts - position s) + 2 \<le> n)
      (\<lambda>_. tracked ts d q)"
    using statement_loop_ends [OF t0] by (rule ends_post) (use q in \<open>simp add: tracked_def\<close>)
  then show ?thesis
    by (rule ends_fuel) simp
qed

lemma balanced_tracked:
  "balanced s \<Longrightarrow> position s \<le> length ts \<Longrightarrow>
     tracked ts (length (bracketStack s)) (position s) s"
  unfolding balanced_def tracked_def by simp

text \<open>
  More fuel changes an outcome only if the outcome was a lack of fuel.
\<close>

lemma fuel_le_refl: "fuel_le r r"
  unfolding fuel_le_def by simp

lemma fuel_le_trans: "fuel_le a b \<Longrightarrow> fuel_le b c \<Longrightarrow> fuel_le a c"
  unfolding fuel_le_def by auto

lemma fuel_le_OutOfFuel: "fuel_le (throwP OutOfFuel s) r"
  unfolding fuel_le_def throwP_def by simp

lemma fuel_le_thenP:
  assumes "fuel_le r r'" and "\<And>x s. fuel_le (f x s) (f' x s)"
  shows "fuel_le (thenP r f) (thenP r' f')"
proof (cases "r = r'")
  case True
  show ?thesis
  proof (cases r')
    case (Inl e)
    with True show ?thesis by (simp add: fuel_le_refl)
  next
    case (Inr xs)
    obtain x s where "xs = (x, s)" by (cases xs)
    with Inr True assms(2) [of x s] show ?thesis by simp
  qed
next
  case False
  with assms(1) obtain s where "r = Inl (OutOfFuel, s)"
    unfolding fuel_le_def by blast
  then show ?thesis
    unfolding fuel_le_def by simp
qed

lemma fuel_le_if:
  "(b \<Longrightarrow> fuel_le r1 r1') \<Longrightarrow> (\<not> b \<Longrightarrow> fuel_le r2 r2') \<Longrightarrow>
     fuel_le (if b then r1 else r2) (if b then r1' else r2')"
  by simp

lemma parseIfStatement_fuel:
  assumes "\<And>s. fuel_le (statement_loop n ts s) (statement_loop m ts s)"
  shows "fuel_le (parseIfStatement n ts s) (parseIfStatement m ts s)"
  unfolding parseIfStatement.simps
  by (intro fuel_le_refl fuel_le_thenP assms)

lemma parseWhileStatement_fuel:
  assumes "\<And>s. fuel_le (statement_loop n ts s) (statement_loop m ts s)"
  shows "fuel_le (parseWhileStatement n ts s) (parseWhileStatement m ts s)"
  unfolding parseWhileStatement.simps
  by (intro fuel_le_refl fuel_le_thenP assms)

lemma parseForStatement_fuel:
  assumes "\<And>s. fuel_le (statement_loop n ts s) (statement_loop m ts s)"
  shows "fuel_le (parseForStatement n ts s) (parseForStatement m ts s)"
  unfolding parseForStatement.simps
  by (intro fuel_le_refl fuel_le_thenP assms)

lemma parseStatement_Suc_fuel:
  assumes "\<And>s. fuel_le (statement_loop n ts s) (statement_loop m ts s)"
  shows "fuel_le (parseStatement (Suc n) ts s) (parseStatement (Suc m) ts s)"
  unfolding parseStatement.simps
  by (intro fuel_le_refl fuel_le_thenP fuel_le_if
        parseIfStatement_fuel parseWhileStatement_fuel parseForStatement_fuel assms)

lemma statement_loop_Suc_fuel:
  assumes "\<And>s. fuel_le (parseStatement n ts s) (parseStatement m ts s)"
    and "\<And>s. fuel_le (statement_loop n ts s) (statement_loop m ts s)"
  shows "fuel_le (statement_loop (Suc n) ts s) (statement_loop (Suc m) ts s)"
  unfolding statement_loop.simps
  by (intro fuel_le_refl fuel_le_thenP fuel_le_if assms)

lemma statements_fuel:
  "(\<forall>s. fuel_le (parseStatement n ts s) (parseStatement (Suc n) ts s))
   \<and> (\<forall>s. fuel_le (statement_loop n ts s) (statement_loop (Suc n) ts s))"
proof (induction n)
  case 0
  show ?case
    by (simp only: parseStatement.simps(1) statement_loop.simps(1) fuel_le_OutOfFuel simp_thms)
next
  case (Suc n)
  then have stmt: "fuel_le (parseStatement n ts s) (parseStatement (Suc n) ts s)"
    and loop: "fuel_le (statement_loop n ts s) (statement_loop (Suc n) ts s)" for s
    by blast+
  have "fuel_le (parseStatement (Suc n) ts s) (parseStatement (Suc (Suc n)) ts s)" for s
    by (rule parseStatement_Suc_fuel) (rule loop)
  moreover
  have "fuel_le (statement_loop (Suc n) ts s) (statement_loop (Suc (Suc n)) ts s)" for s
    by (rule statement_loop_Suc_fuel) (rule stmt, rule loop)
  ultimately show ?case by blast
qed

lemma program_loop_Suc_fuel:
  assumes "\<And>s. fuel_le (parseStatement n ts s) (parseStatement m ts s)"
    and "\<And>s. fuel_le (program_loop n ts s) (program_loop m ts s)"
  shows "fuel_le (program_loop (Suc n) ts s) (program_loop (Suc m) ts s)"
  unfolding program_loop.simps
  by (intro fuel_le_refl fuel_le_thenP fuel_le_if assms)

lemma program_loop_fuel:
  "fuel_le (program_loop n ts s) (program_loop (Suc n) ts s)"
proof (induction n arbitrary: s)
  case 0
  show ?case
    by (simp only: program_loop.simps(1) fuel_le_OutOfFuel)
next
  case (Suc n)
  have stmt: "fuel_le (parseStatement n ts s) (parseStatement (Suc n) ts s)" for s
    using statements_fuel [of n ts] by blast
  show ?case
    by (rule program_loop_Suc_fuel) (rule stmt, rule Suc.IH)
qed

lemma parseProgram_fuel:
  "fuel_le (parseProgram n ts s) (parseProgram (n + k) ts s)"
proof (induction k)
  case 0
  show ?case by (simp add: fuel_le_refl)
next
  case (Suc k)
  have "fuel_le (parseProgram (n + k) ts s) (parseProgram (Suc (n + k)) ts s)"
    unfolding parseProgram_def
    by (intro fuel_le_refl fuel_le_thenP program_loop_fuel)
  with Suc show ?case
    by (simp add: fuel_le_trans)
qed

text \<open>
  So the outcome of \<open>parse\<close> is the outcome of the parser for every bound that is at least
  the one \<open>parse\<close> uses: the fuel is an artefact of the model and does not show in it.
\<close>

lemma parse_fuel_independent:
  assumes "2 * length ts + 2 \<le> n"
  shows "(case parseProgram n ts new_Parser of Inl (e, s) \<Rightarrow> Inl e | Inr (root, s) \<Rightarrow> Inr root)
    = parse ts"
proof -
  from assms obtain k where n: "n = (2 * length ts + 2) + k"
    using le_Suc_ex by blast
  have le: "fuel_le (parseProgram (2 * length ts + 2) ts new_Parser) (parseProgram n ts new_Parser)"
    unfolding n by (rule parseProgram_fuel)
  have "\<not> (\<exists>s. parseProgram (2 * length ts + 2) ts new_Parser = Inl (OutOfFuel, s))"
    using parse_outcome [of ts] unfolding ends_def harmless_def by auto
  with le have "parseProgram n ts new_Parser = parseProgram (2 * length ts + 2) ts new_Parser"
    unfolding fuel_le_def by auto
  then show ?thesis
    unfolding parse_def by simp
qed

text \<open>
  C8.  Started in a state whose two stacks are equally long (with the cursor inside the
  token sequence), every parser function leaves them equally long, whether it returns or
  raises: \<^verbatim>\<open>match\<close>, the statement parsers, the body loop and the program loop return with
  both stacks as long as they found them, the two pushes after an opening bracket add one
  entry to each, the two pops after a closing bracket remove one entry from each.  From the
  initial parser, \<^verbatim>\<open>parseProgram\<close> ends with equally long stacks if it raises and with both
  stacks empty if it returns.  This holds for every token sequence and every amount of fuel.
\<close>

theorem C8_stacks_paired:
  assumes "balanced s" and "position s \<le> length ts"
  shows "stacks_after (match ts ty val s) (length (bracketStack s))
    \<and> stacks_after (parseStatement n ts s) (length (bracketStack s))
    \<and> stacks_after (statement_loop n ts s) (length (bracketStack s))
    \<and> stacks_after (program_loop n ts s) (length (bracketStack s))
    \<and> stacks_after (parseFileDeclaration ts s) (length (bracketStack s))
    \<and> stacks_after (parseIfStatement n ts s) (length (bracketStack s))
    \<and> stacks_after (parseWhileStatement n ts s) (length (bracketStack s))
    \<and> stacks_after (parseForStatement n ts s) (length (bracketStack s))
    \<and> (0 < position s \<longrightarrow>
         stacks_after (parseExpression ts s) (length (bracketStack s))
       \<and> stacks_after (parseVariableDeclaration ts s) (length (bracketStack s))
       \<and> stacks_after (parseFileOperation ts s) (length (bracketStack s))
       \<and> stacks_after (open_bracket ts c s) (Suc (length (bracketStack s))))
    \<and> (bracketStack s \<noteq> [] \<longrightarrow>
         stacks_after (close_bracket s) (length (bracketStack s) - 1))
    \<and> (case parseProgram n ts new_Parser of
          Inl (e, s') \<Rightarrow> balanced s'
        | Inr (root, s') \<Rightarrow> bracketStack s' = [] \<and> lineStack s' = [])"
proof -
  let ?d = "length (bracketStack s)"
  let ?p = "position s"
  have t: "tracked ts ?d ?p s"
    using assms by (rule balanced_tracked)
  then have t0: "tracked ts ?d 0 s"
    by (rule tracked_lower) simp
  have loop: "ends (statement_loop n ts s') False (\<lambda>_. tracked ts (Suc ?d) (Suc (Suc ?p)))"
    if "tracked ts (Suc ?d) (Suc (Suc ?p)) s'" for s'
    using that by (rule loop_any_fuel)
  have c1: "stacks_after (match ts ty val s) ?d"
    by (rule ends_stacks_after [where ok = False and p = ?p, OF ends_post [OF match_ends [OF t]]])
      (auto split: if_splits elim: tracked_lower)
  have c2: "stacks_after (parseStatement n ts s) ?d"
    using parseStatement_ends [OF t0] by (rule ends_stacks_after)
  have c3: "stacks_after (statement_loop n ts s) ?d"
    using statement_loop_ends [OF t0] by (rule ends_stacks_after)
  have c4: "stacks_after (program_loop n ts s) ?d"
    using ends_post [OF program_loop_ends [OF t0], of "\<lambda>_. tracked ts ?d ?p"]
    by (intro ends_stacks_after) simp
  have c5: "stacks_after (parseFileDeclaration ts s) ?d"
    using parseFileDeclaration_ends [OF t, where ok = False] by (rule ends_stacks_after)
  have c6: "stacks_after (parseIfStatement n ts s) ?d"
    using parseIfStatement_ends [OF loop t] by (rule ends_stacks_after)
  have c7: "stacks_after (parseWhileStatement n ts s) ?d"
    using parseWhileStatement_ends [OF loop t] by (rule ends_stacks_after)
  have c8: "stacks_after (parseForStatement n ts s) ?d"
    using parseForStatement_ends [OF loop t] by (rule ends_stacks_after)
  have c9: "stacks_after (parseExpression ts s) ?d
       \<and> stacks_after (parseVariableDeclaration ts s) ?d
       \<and> stacks_after (parseFileOperation ts s) ?d
       \<and> stacks_after (open_bracket ts c s) (Suc ?d)" if pos: "0 < position s"
  proof -
    from t pos have t1: "tracked ts ?d (Suc 0) s"
      unfolding tracked_def by simp
    show ?thesis
      using parseExpression_ends [OF t1, where ok = False]
        parseVariableDeclaration_ends [OF t1, where ok = False]
        parseFileOperation_ends [OF t1, where ok = False]
        open_bracket_ends [OF t1, where ok = False and c = c]
      by (simp add: ends_stacks_after)
  qed
  have c10: "stacks_after (close_bracket s) (?d - 1)" if ne: "bracketStack s \<noteq> []"
  proof -
    from ne obtain d' where d': "?d = Suc d'"
      by (cases "bracketStack s") auto
    with t have "tracked ts (Suc d') ?p s" by simp
    from close_bracket_ends [OF this, where ok = False] have "stacks_after (close_bracket s) d'"
      by (rule ends_stacks_after)
    with d' show ?thesis by simp
  qed
  have c11: "case parseProgram n ts new_Parser of
          Inl (e, s') \<Rightarrow> balanced s'
        | Inr (root, s') \<Rightarrow> bracketStack s' = [] \<and> lineStack s' = []"
    using parseProgram_ends [OF tracked_new_Parser, where ts = ts and n = n]
    unfolding ends_def by (auto split: sum.splits)
  from c1 c2 c3 c4 c5 c6 c7 c8 c9 c10 c11 show ?thesis
    by blast
qed

theorem C8_stacks_paired_witness:
  "balanced \<lparr>position = 5, bracketStack = ''{'', lineStack = [1]\<rparr>
   \<and> position \<lparr>position = 5, bracketStack = ''{'', lineStack = [1]\<rparr>
       \<le> length (tokenize ''if (x) { int a; }'')
   \<and> 0 < position \<lparr>position = 5, bracketStack = ''{'', lineStack = [1]\<rparr>
   \<and> bracketStack \<lparr>position = 5, bracketStack = ''{'', lineStack = [1]\<rparr> \<noteq> []
   \<and> statement_loop 20 (tokenize ''if (x) { int a; }'')
       \<lparr>position = 5, bracketStack = ''{'', lineStack = [1]\<rparr> =
       Inr ((), \<lparr>position = 9, bracketStack = ''{'', lineStack = [1]\<rparr>)
   \<and> stacks_after (statement_loop 20 (tokenize ''if (x) { int a; }'')
       \<lparr>position = 5, bracketStack = ''{'', lineStack = [1]\<rparr>) 1
   \<and> stacks_after (parseExpression (tokenize ''if (x) { int a; }'')
       \<lparr>position = 5, bracketStack = ''{'', lineStack = [1]\<rparr>) 1
   \<and> stacks_after (open_bracket (tokenize ''if (x) { int a; }'') (CHR ''('')
       \<lparr>position = 5, bracketStack = ''{'', lineStack = [1]\<rparr>) 2
   \<and> stacks_after (close_bracket \<lparr>position = 5, bracketStack = ''{'', lineStack = [1]\<rparr>) 0
   \<and> parseProgram 20 (tokenize ''if (x) { int a; }'') new_Parser =
       Inr (None, \<lparr>position = 9, bracketStack = [], lineStack = []\<rparr>)"
proof -
  let ?s = "\<lparr>position = 5, bracketStack = ''{'', lineStack = [1]\<rparr>"
  let ?ts = "tokenize ''if (x) { int a; }''"
  have h1: "balanced ?s"
    unfolding balanced_def by simp
  have h2: "position ?s \<le> length ?ts"
    by code_simp
  have h3: "0 < position ?s" and h4: "bracketStack ?s \<noteq> []"
    by simp_all
  have run: "statement_loop 20 ?ts ?s =
      Inr ((), \<lparr>position = 9, bracketStack = ''{'', lineStack = [1]\<rparr>)"
    by code_simp
  have prog: "parseProgram 20 ?ts new_Parser =
      Inr (None, \<lparr>position = 9, bracketStack = [], lineStack = []\<rparr>)"
    by code_simp
  have d: "length (bracketStack ?s) = 1" and d1: "Suc (length (bracketStack ?s)) = 2"
    and d0: "length (bracketStack ?s) - 1 = 0"
    by simp_all
  from C8_stacks_paired [OF h1 h2, of PUNCTUATION "''}''" 20 "CHR ''(''"] h3 h4
  have a: "stacks_after (statement_loop 20 ?ts ?s) (length (bracketStack ?s))"
    and b: "stacks_after (parseExpression ?ts ?s) (length (bracketStack ?s))"
    and c: "stacks_after (open_bracket ?ts (CHR ''('') ?s) (Suc (length (bracketStack ?s)))"
    and e: "stacks_after (close_bracket ?s) (length (bracketStack ?s) - 1)"
    by blast+
  have a': "stacks_after (statement_loop 20 ?ts ?s) 1"
    using a by (simp only: d)
  have b': "stacks_after (parseExpression ?ts ?s) 1"
    using b by (simp only: d)
  have c': "stacks_after (open_bracket ?ts (CHR ''('') ?s) 2"
    using c by (simp only: d1)
  have e': "stacks_after (close_bracket ?s) 0"
    using e by (simp only: d0)
  from h1 h2 h3 h4 run prog a' b' c' e' show ?thesis
    by blast
qed

section \<open>The scenarios of the specification, run on the code\<close>

text \<open>
  C1.  The source \<^verbatim>\<open>int a, b;\<close> is tokenized as keyword \<^verbatim>\<open>int\<close>, identifier \<^verbatim>\<open>a\<close>, comma,
  identifier \<^verbatim>\<open>b\<close>, semicolon, all on line 1, and parsing raises no error.
  \<^verbatim>\<open>parseVariableDeclaration\<close>, entered after the keyword, builds the declaration node of type
  \<^verbatim>\<open>int\<close> with the identifiers \<^verbatim>\<open>a\<close> and \<^verbatim>\<open>b\<close>; \<^verbatim>\<open>parseStatement\<close> drops it and \<^verbatim>\<open>parse\<close>
  hands the caller the null pointer, not the declaration (by lemma
  \<open>parse_success_is_null\<close> it does so after every successful parse).
\<close>

theorem C1_declaration_parsed_but_null_returned:
  "tokenize ''int a, b;'' =
     [\<lparr>type = KEYWORD, value = ''int'', line = 1\<rparr>,
      \<lparr>type = IDENTIFIER, value = ''a'', line = 1\<rparr>,
      \<lparr>type = PUNCTUATION, value = '','', line = 1\<rparr>,
      \<lparr>type = IDENTIFIER, value = ''b'', line = 1\<rparr>,
      \<lparr>type = PUNCTUATION, value = '';'', line = 1\<rparr>]
   \<and> parseVariableDeclaration (tokenize ''int a, b;'')
       \<lparr>position = 1, bracketStack = [], lineStack = []\<rparr> =
     Inr (Some (DeclarationNode ''int'' [IdentifierNode ''a'', IdentifierNode ''b'']),
          \<lparr>position = 5, bracketStack = [], lineStack = []\<rparr>)
   \<and> parse (tokenize ''int a, b;'') = Inr None"
  by code_simp

text \<open>
  C2.  In the source \<^verbatim>\<open>foo.bar();\<close> the dot is matched by the operator group, which comes
  before the punctuation group, so it is an \<open>OPERATOR\<close> token.  \<^verbatim>\<open>parseFileOperation\<close> asks
  for a \<open>PUNCTUATION\<close> dot, does not find one, and the parse ends with the exception
  \<^verbatim>\<open>Unexpected token after file identifier at line 1\<close>.  By lemma
  \<open>tokenize_never_for_not_dot\<close> no source gives a \<open>PUNCTUATION\<close> dot, so no member call
  written as source text is accepted.
\<close>

theorem C2_member_call_rejected:
  "tokenize ''foo.bar();'' =
     [\<lparr>type = IDENTIFIER, value = ''foo'', line = 1\<rparr>,
      \<lparr>type = OPERATOR, value = ''.'', line = 1\<rparr>,
      \<lparr>type = IDENTIFIER, value = ''bar'', line = 1\<rparr>,
      \<lparr>type = PUNCTUATION, value = ''('', line = 1\<rparr>,
      \<lparr>type = PUNCTUATION, value = '')'', line = 1\<rparr>,
      \<lparr>type = PUNCTUATION, value = '';'', line = 1\<rparr>]
   \<and> parse (tokenize ''foo.bar();'') =
     Inl (runtime_error ''Unexpected token after file identifier at line '' 1)"
  by code_simp

text \<open>
  C3.  The keyword group of the pattern has no alternative \<^verbatim>\<open>for\<close>, so the word \<^verbatim>\<open>for\<close> is an
  \<open>IDENTIFIER\<close> token.  \<^verbatim>\<open>parseStatement\<close> tests \<^verbatim>\<open>match(IDENTIFIER)\<close> before
  \<^verbatim>\<open>match(KEYWORD, "for")\<close> and sends a well-formed for-loop to \<^verbatim>\<open>parseFileOperation\<close>, which
  raises \<^verbatim>\<open>Unexpected token after file identifier at line 1\<close>.  By lemma
  \<open>tokenize_never_for_not_dot\<close> no source gives a keyword token \<^verbatim>\<open>for\<close>, so
  \<^verbatim>\<open>parseForStatement\<close> is never entered on tokenized text.
\<close>

theorem C3_for_word_is_identifier:
  "tokenize ''for'' = [\<lparr>type = IDENTIFIER, value = ''for'', line = 1\<rparr>]
   \<and> parse (tokenize ''for (a; b; c) { int d; }'') =
     Inl (runtime_error ''Unexpected token after file identifier at line '' 1)"
  by code_simp

text \<open>
  C4.  The operator group of the pattern has no alternative \<^verbatim>\<open>!\<close>, so the character \<^verbatim>\<open>!\<close>
  (not followed by \<^verbatim>\<open>=\<close>) is an \<open>UNKNOWN\<close> token.  In \<^verbatim>\<open>if (!x) { }\<close> the expression starts
  at token 2; \<^verbatim>\<open>parseExpression\<close> does not recognise the prefix, consumes the \<^verbatim>\<open>!\<close> token
  alone and returns the null pointer, and the parse ends with the exception
  \<^verbatim>\<open>Expected ')' after condition in 'if' statement at line 1\<close>.  By lemma
  \<open>tokenize_never_for_not_dot\<close> no source gives an operator token \<^verbatim>\<open>!\<close>, so no
  \<^verbatim>\<open>UnaryOperationNode\<close> is ever built from tokenized text.
\<close>

theorem C4_not_prefix_unrecognised:
  "tokenize ''if (!x) { }'' =
     [\<lparr>type = KEYWORD, value = ''if'', line = 1\<rparr>,
      \<lparr>type = PUNCTUATION, value = ''('', line = 1\<rparr>,
      \<lparr>type = UNKNOWN, value = ''!'', line = 1\<rparr>,
      \<lparr>type = IDENTIFIER, value = ''x'', line = 1\<rparr>,
      \<lparr>type = PUNCTUATION, value = '')'', line = 1\<rparr>,
      \<lparr>type = PUNCTUATION, value = ''{'', line = 1\<rparr>,
      \<lparr>type = PUNCTUATION, value = ''}'', line = 1\<rparr>]
   \<and> parseExpression (tokenize ''if (!x) { }'')
       \<lparr>position = 2, bracketStack = ''('', lineStack = [1]\<rparr> =
     Inr (None, \<lparr>position = 3, bracketStack = ''('', lineStack = [1]\<rparr>)
   \<and> parse (tokenize ''if (!x) { }'') =
     Inl (runtime_error ''Expected ')' after condition in 'if' statement at line '' 1)"
  by code_simp

text \<open>
  C6.  The source \<^verbatim>\<open>int a\<close> followed by a newline gives two tokens.  After the identifier
  the cursor is at the end; \<^verbatim>\<open>match(PUNCTUATION, ";")\<close> fails there and the message of the
  exception is built from \<^verbatim>\<open>peek().line\<close>, the read \<^verbatim>\<open>tokens[2]\<close> of a vector of size 2.
  No line number is available to cite.
\<close>

theorem C6_missing_semicolon_reads_past_end:
  "tokenize (''int a'' @ [LF]) =
     [\<lparr>type = KEYWORD, value = ''int'', line = 1\<rparr>,
      \<lparr>type = IDENTIFIER, value = ''a'', line = 1\<rparr>]
   \<and> parse (tokenize (''int a'' @ [LF])) = Inl (OutOfRange 2)"
  by code_simp

text \<open>
  C7.  The source \<^verbatim>\<open>while (x) {\<close> followed by a newline gives five tokens.  With the brace
  open and the cursor at the end, the body loop calls \<^verbatim>\<open>parseStatement\<close>, whose last branch
  builds its message from \<^verbatim>\<open>peek()\<close>, the read \<^verbatim>\<open>tokens[5]\<close> of a vector of size 5.  The
  check for mismatched brackets in \<^verbatim>\<open>parseProgram\<close> is not reached; by lemma
  \<open>parse_never_reports_mismatch\<close> it never fires, for any token sequence.
\<close>

theorem C7_unclosed_brace_reads_past_end:
  "tokenize (''while (x) {'' @ [LF]) =
     [\<lparr>type = KEYWORD, value = ''while'', line = 1\<rparr>,
      \<lparr>type = PUNCTUATION, value = ''('', line = 1\<rparr>,
      \<lparr>type = IDENTIFIER, value = ''x'', line = 1\<rparr>,
      \<lparr>type = PUNCTUATION, value = '')'', line = 1\<rparr>,
      \<lparr>type = PUNCTUATION, value = ''{'', line = 1\<rparr>]
   \<and> parse (tokenize (''while (x) {'' @ [LF])) = Inl (OutOfRange 5)"
  by code_simp

text \<open>
  C10.  Reads of \<^verbatim>\<open>tokens[position]\<close> with the cursor at the end of the sequence happen on
  both error-reporting paths: the expected-token message after a failed \<^verbatim>\<open>match\<close> (a lone
  \<^verbatim>\<open>if\<close> keyword: \<^verbatim>\<open>tokens[1]\<close> of a vector of size 1) and the unexpected-token branch of
  \<^verbatim>\<open>parseStatement\<close> (an \<^verbatim>\<open>if\<close> statement whose body is left open: \<^verbatim>\<open>tokens[5]\<close> of a vector
  of size 5).
\<close>

theorem C10_peek_reads_past_end:
  "parse [\<lparr>type = KEYWORD, value = ''if'', line = 1\<rparr>] = Inl (OutOfRange 1)
   \<and> parse [\<lparr>type = KEYWORD, value = ''if'', line = 1\<rparr>,
            \<lparr>type = PUNCTUATION, value = ''('', line = 1\<rparr>,
            \<lparr>type = IDENTIFIER, value = ''x'', line = 1\<rparr>,
            \<lparr>type = PUNCTUATION, value = '')'', line = 1\<rparr>,
            \<lparr>type = PUNCTUATION, value = ''{'', line = 2\<rparr>] = Inl (OutOfRange 5)"
  by code_simp

end
